theory Spec2Isabelle
  imports Complex_Main "HOL-Library.Sublist" "HOL-Library.Multiset" "HOL-Library.Product_Lexorder"
begin

section \<open>Strings\<close>

text \<open>
  Python \<open>str\<close> values are modelled as Isabelle strings. The model covers ASCII text:
  a character above 0x7F is an ordinary character (no white space, no digit, no line
  boundary, left alone by \<open>upper\<close>).
\<close>

definition is_linebreak :: "char \<Rightarrow> bool" where
  \<comment> \<open>the line boundaries of \<open>str.splitlines\<close> within ASCII: LF, VT, FF, CR, FS, GS, RS\<close>
  "is_linebreak c \<longleftrightarrow>
     c = CHR 0x0A \<or> c = CHR 0x0B \<or> c = CHR 0x0C \<or> c = CHR 0x0D \<or>
     c = CHR 0x1C \<or> c = CHR 0x1D \<or> c = CHR 0x1E"

text \<open>
  \<open>text.splitlines(True)\<close>: the lines of the text, each with its terminator; CR LF is one
  terminator; a last line without terminator is kept; the empty text has no line.
  The first argument is the line read so far.
\<close>

fun splitlines_from :: "string \<Rightarrow> string \<Rightarrow> string list" where
  "splitlines_from cur [] = (if cur = [] then [] else [cur])"
| "splitlines_from cur [c] = [cur @ [c]]"
| "splitlines_from cur (c # d # cs) =
     (if c = CHR 0x0D \<and> d = CHR 0x0A then (cur @ [c, d]) # splitlines_from [] cs
      else if is_linebreak c then (cur @ [c]) # splitlines_from [] (d # cs)
      else splitlines_from (cur @ [c]) (d # cs))"

definition splitlines :: "string \<Rightarrow> string list" where
  "splitlines text = splitlines_from [] text"

definition is_space :: "char \<Rightarrow> bool" where
  \<comment> \<open>\<open>str.isspace\<close> within ASCII: TAB, LF, VT, FF, CR, FS, GS, RS, US and the space\<close>
  "is_space c \<longleftrightarrow>
     c = CHR 0x09 \<or> c = CHR 0x0A \<or> c = CHR 0x0B \<or> c = CHR 0x0C \<or> c = CHR 0x0D \<or>
     c = CHR 0x1C \<or> c = CHR 0x1D \<or> c = CHR 0x1E \<or> c = CHR 0x1F \<or> c = CHR 0x20"

definition is_digit :: "char \<Rightarrow> bool" where
  "is_digit c \<longleftrightarrow> c \<in> set ''0123456789''"

definition digit_val :: "char \<Rightarrow> nat" where
  "digit_val c = of_char c - 48"

definition strip :: "string \<Rightarrow> string" where
  \<comment> \<open>\<open>s.strip()\<close>\<close>
  "strip s = rev (dropWhile is_space (rev (dropWhile is_space s)))"

definition upper_char :: "char \<Rightarrow> char" where
  "upper_char c =
     (case map_of (zip ''abcdefghijklmnopqrstuvwxyz'' ''ABCDEFGHIJKLMNOPQRSTUVWXYZ'') c of
        Some u \<Rightarrow> u
      | None \<Rightarrow> c)"

definition upper :: "string \<Rightarrow> string" where
  \<comment> \<open>\<open>s.upper()\<close>\<close>
  "upper s = map upper_char s"

text \<open>\<open>s.split(sep)\<close> for a separator of one character: never the empty list.\<close>

fun split_char :: "char \<Rightarrow> string \<Rightarrow> string list" where
  "split_char sep [] = [[]]"
| "split_char sep (c # cs) =
     (if c = sep then [] # split_char sep cs
      else (case split_char sep cs of
              [] \<Rightarrow> [[c]]
            | x # xs \<Rightarrow> (c # x) # xs))"

definition last_segment :: "string \<Rightarrow> string" where
  \<comment> \<open>\<open>s.split("/")[-1]\<close>\<close>
  "last_segment s = last (split_char CHR ''/'' s)"

text \<open>\<open>sep.join(xs)\<close>\<close>

fun join :: "string \<Rightarrow> string list \<Rightarrow> string" where
  "join sep [] = []"
| "join sep [x] = x"
| "join sep (x # y # ys) = x @ sep @ join sep (y # ys)"

definition replace_comma :: "string \<Rightarrow> string" where
  \<comment> \<open>\<open>s.replace(",", ".")\<close>\<close>
  "replace_comma s = map (\<lambda>c. if c = CHR '','' then CHR ''.'' else c) s"

section \<open>Message splitting (\<open>split_long_message\<close>)\<close>

text \<open>
  The loop of \<open>split_long_message\<close> over the lines, with the finished parts and the part
  being filled as its state.
\<close>

fun pack_lines :: "int \<Rightarrow> string list \<Rightarrow> string \<Rightarrow> string list \<Rightarrow> string list \<times> string" where
  "pack_lines limit parts cur [] = (parts, cur)"
| "pack_lines limit parts cur (line # lines) =
     (if int (length cur) + int (length line) > limit
      then pack_lines limit (parts @ [cur]) line lines
      else pack_lines limit parts (cur @ line) lines)"

definition split_long_message :: "string \<Rightarrow> int \<Rightarrow> string list" where
  "split_long_message text limit =
     (if int (length text) \<le> limit then [text]
      else (case pack_lines limit [] [] (splitlines text) of
              (parts, cur) \<Rightarrow> if cur \<noteq> [] then parts @ [cur] else parts))"

text \<open>
  The same loop on groups of lines instead of their concatenation: which lines each
  part is made of. It is not part of the program; the parts are compared with it.
\<close>

fun pack_groups :: "int \<Rightarrow> string list list \<Rightarrow> string list \<Rightarrow> string list \<Rightarrow>
    string list list \<times> string list" where
  "pack_groups limit gs g [] = (gs, g)"
| "pack_groups limit gs g (line # lines) =
     (if int (length (concat g)) + int (length line) > limit
      then pack_groups limit (gs @ [g]) [line] lines
      else pack_groups limit gs (g @ [line]) lines)"

definition line_groups :: "string \<Rightarrow> int \<Rightarrow> string list list" where
  "line_groups text limit =
     (if int (length text) \<le> limit then [splitlines text]
      else (case pack_groups limit [] [] (splitlines text) of
              (gs, g) \<Rightarrow> if concat g \<noteq> [] then gs @ [g] else gs))"

text \<open>
  Greedy packing, on the groups: each part but the first holds a line, and the first line
  of a part did not fit into the part before it.
\<close>

fun greedy_chain :: "int \<Rightarrow> string list list \<Rightarrow> bool" where
  "greedy_chain limit (a # b # rest) =
     (b \<noteq> [] \<and> int (length (concat a)) + int (length (hd b)) > limit \<and>
      greedy_chain limit (b # rest))"
| "greedy_chain limit [a] = True"
| "greedy_chain limit [] = True"

section \<open>The synthesis extractor (\<open>parse_synthese\<close>)\<close>

text \<open>
  The parsed page is what BeautifulSoup hands to \<open>parse_synthese\<close>. Each \<open>a\<close> element
  of the page, in document order, is given with the answers to the queries the function
  makes on it. An image is its \<open>src\<close> attribute, if it has one.
\<close>

type_synonym img = "string option"

record element =
  el_imgs :: "img list"  \<comment> \<open>\<open>find_all("img")\<close>\<close>
  el_text :: string  \<comment> \<open>\<open>get_text(" ", strip=True)\<close>\<close>
  el_cells :: "string list"
    \<comment> \<open>\<open>td.get_text(" ", strip=True)\<close> for each \<open>td\<close> of \<open>find_all(["td", "th"])\<close>\<close>

record anchor =
  a_href :: "string option"  \<comment> \<open>the \<open>href\<close> attribute\<close>
  a_text :: string  \<comment> \<open>\<open>a.text\<close>\<close>
  a_tr :: "element option"  \<comment> \<open>\<open>a.find_parent("tr")\<close>\<close>
  a_parent :: "element option"  \<comment> \<open>\<open>a.parent\<close>\<close>
  a_next_sibling_imgs :: "img list"  \<comment> \<open>\<open>a.find_next_siblings("img")\<close>\<close>
  a_all_next_imgs :: "img list"  \<comment> \<open>\<open>a.find_all_next("img")\<close>, without the limit\<close>
  a_next_siblings :: "string list"
    \<comment> \<open>\<open>get_text(" ", strip=True)\<close> of the following sibling elements, in order\<close>

text \<open>
  A Python \<open>float\<close>: a finite number (\<open>Finite 0\<close> is 0.0), the negative zero -0.0, or an
  infinity. A finite number is an exact value: the rounding of a decimal to the nearest
  binary floating-point number is not modelled; the overflow to an infinity and the
  underflow to a zero are.
\<close>

datatype pyfloat = Finite rat | NegZero | PosInf | NegInf

record signal =
  code :: string
  name :: string
  action :: string
  potential :: pyfloat

definition ACTION_MAP :: "(string \<times> string) list" where
  "ACTION_MAP =
     [(''f_1b.png'', ''BUY''), (''f_5b.png'', ''SELL''), (''f_3b.png'', ''KEEP''),
      (''f_4b.png'', ''TAKE PROFIT'')]"

subsection \<open>The pattern \<open>POTENTIAL_RE\<close>\<close>

text \<open>
  \<open>([+-]?\d+(?:[.,]\d+)?)\s*%\<close> matched at the start of a string; the result is group 1.
  Every piece of the pattern is greedy, and backtracking never finds a match that the
  longest pieces miss: after a shorter run of digits the next character is a digit, which
  neither a separator, white space nor the percent sign is, and after the digits a
  separator is neither white space nor the percent sign.
\<close>

definition take_sign :: "string \<Rightarrow> string \<times> string" where
  \<comment> \<open>\<open>[+-]?\<close>: the sign taken, and the rest\<close>
  "take_sign s =
     (case s of
        [] \<Rightarrow> ([], [])
      | c # cs \<Rightarrow> if c = CHR ''+'' \<or> c = CHR ''-'' then ([c], cs) else ([], s))"

definition take_fraction :: "string \<Rightarrow> string \<times> string" where
  \<comment> \<open>\<open>(?:[.,]\d+)?\<close>: the fraction taken, and the rest\<close>
  "take_fraction s =
     (case s of
        [] \<Rightarrow> ([], [])
      | c # cs \<Rightarrow>
          if (c = CHR ''.'' \<or> c = CHR '','') \<and> takeWhile is_digit cs \<noteq> []
          then (c # takeWhile is_digit cs, dropWhile is_digit cs)
          else ([], s))"

definition match_here :: "string \<Rightarrow> string option" where
  "match_here s =
     (case take_sign s of
        (sg, r0) \<Rightarrow>
          (let ds = takeWhile is_digit r0;
               r1 = dropWhile is_digit r0
           in if ds = [] then None
              else
                (case take_fraction r1 of
                   (fr, r2) \<Rightarrow>
                     (case dropWhile is_space r2 of
                        [] \<Rightarrow> None
                      | p # _ \<Rightarrow> if p = CHR ''%'' then Some (sg @ ds @ fr) else None))))"

text \<open>\<open>POTENTIAL_RE.search(s)\<close>: the match at the leftmost position that has one.\<close>

fun re_search :: "string \<Rightarrow> string option" where
  "re_search [] = match_here []"
| "re_search (c # cs) =
     (case match_here (c # cs) of
        Some g \<Rightarrow> Some g
      | None \<Rightarrow> re_search cs)"

text \<open>
  \<open>float(s)\<close> on a plain decimal (sign, digits, optional fraction), the only strings the
  pattern hands to it; \<open>None\<close> is the \<open>ValueError\<close>. A decimal from half-way between the
  largest floating-point number and \<open>2 ^ 1024\<close> on gives an infinity, one up to half the
  smallest floating-point number gives a zero, and the sign is kept in both cases.
\<close>

definition nat_of_digits :: "string \<Rightarrow> nat" where
  "nat_of_digits ds = foldl (\<lambda>n c. 10 * n + digit_val c) 0 ds"

definition float_sign :: "string \<Rightarrow> bool \<times> string" where
  \<comment> \<open>whether the text starts with a minus sign, and the text after the sign\<close>
  "float_sign s =
     (case s of
        [] \<Rightarrow> (False, [])
      | c # cs \<Rightarrow> if c = CHR ''-'' then (True, cs)
                else if c = CHR ''+'' then (False, cs) else (False, s))"

definition float_of_decimal :: "bool \<Rightarrow> rat \<Rightarrow> pyfloat" where
  \<comment> \<open>the float of a sign and a magnitude\<close>
  "float_of_decimal neg m =
     (if 2 ^ 1024 - 2 ^ 970 \<le> m then (if neg then NegInf else PosInf)
      else if m \<le> 1 / 2 ^ 1075 then (if neg then NegZero else Finite 0)
      else Finite (if neg then - m else m))"

definition py_float :: "string \<Rightarrow> pyfloat option" where
  "py_float s =
     (case float_sign s of
        (neg, r0) \<Rightarrow>
          (let ip = takeWhile is_digit r0;
               r1 = dropWhile is_digit r0
           in if ip = [] then None
              else (case r1 of
                      [] \<Rightarrow> Some (float_of_decimal neg (of_nat (nat_of_digits ip)))
                    | c # fs \<Rightarrow>
                        if c = CHR ''.'' \<and> fs \<noteq> [] \<and> list_all is_digit fs
                        then Some (float_of_decimal neg
                                     (of_nat (nat_of_digits ip) +
                                      of_nat (nat_of_digits fs) / 10 ^ length fs))
                        else None)))"

text \<open>
  Lines 123-129: the potential found in a text search area. The first argument stands for
  \<open>float\<close>, so that the \<open>except\<close> branch is a branch of the model whatever \<open>float\<close> does.
\<close>

definition parse_potential_with :: "(string \<Rightarrow> pyfloat option) \<Rightarrow> string \<Rightarrow> pyfloat" where
  "parse_potential_with float text_search_area =
     (case re_search text_search_area of
        None \<Rightarrow> Finite 0
      | Some g \<Rightarrow>
          (case float (replace_comma g) of
             Some v \<Rightarrow> v
           | None \<Rightarrow> Finite 0))"

definition parse_potential :: "string \<Rightarrow> pyfloat" where
  "parse_potential text_search_area = parse_potential_with py_float text_search_area"

text \<open>
  The pattern, said without an algorithm: a number token is an optional sign, digits and
  an optional fraction of a separator and digits; the pattern matches at the start of a
  string that begins with a number token, white space and a percent sign.
\<close>

definition number_token :: "string \<Rightarrow> bool" where
  "number_token g \<longleftrightarrow>
     (\<exists>sg ds fr. g = sg @ ds @ fr \<and> (sg = [] \<or> sg = ''+'' \<or> sg = ''-'') \<and>
        ds \<noteq> [] \<and> list_all is_digit ds \<and>
        (fr = [] \<or>
         (\<exists>sep fs. fr = sep # fs \<and> (sep = CHR ''.'' \<or> sep = CHR '','') \<and>
            fs \<noteq> [] \<and> list_all is_digit fs)))"

definition token_at :: "string \<Rightarrow> string \<Rightarrow> bool" where
  "token_at s g \<longleftrightarrow>
     number_token g \<and> (\<exists>ws rest. s = g @ ws @ CHR ''%'' # rest \<and> list_all is_space ws)"

subsection \<open>One candidate link\<close>

definition is_candidate :: "anchor \<Rightarrow> bool" where
  \<comment> \<open>\<open>href=lambda x: x and x.startswith("conseil/")\<close>\<close>
  "is_candidate a =
     (case a_href a of
        None \<Rightarrow> False
      | Some x \<Rightarrow> x \<noteq> [] \<and> prefix ''conseil/'' x)"

definition link_code :: "anchor \<Rightarrow> string" where
  "link_code a = upper (strip (last_segment (case a_href a of None \<Rightarrow> [] | Some x \<Rightarrow> x)))"

definition link_name :: "anchor \<Rightarrow> string" where
  "link_name a = strip (a_text a)"

definition link_key :: "anchor \<Rightarrow> string \<times> string" where
  "link_key a = (link_code a, link_name a)"

definition link_imgs :: "anchor \<Rightarrow> img list" where
  \<comment> \<open>lines 86-96: the images looked at, with the two fallbacks\<close>
  "link_imgs a =
     (let parent = (case a_tr a of Some tr \<Rightarrow> Some tr | None \<Rightarrow> a_parent a);
          imgs = (case parent of Some p \<Rightarrow> el_imgs p | None \<Rightarrow> []);
          imgs = (if imgs = [] then a_next_sibling_imgs a else imgs);
          imgs = (if imgs = [] then take 6 (a_all_next_imgs a) else imgs)
      in imgs)"

fun find_action :: "img list \<Rightarrow> string option" where
  "find_action [] = None"
| "find_action (img # imgs) =
     (let src = (case img of None \<Rightarrow> [] | Some s \<Rightarrow> s)
      in if src = [] then find_action imgs
         else (case map_of ACTION_MAP (last_segment src) of
                 Some act \<Rightarrow> Some act
               | None \<Rightarrow> find_action imgs))"

definition text_search_area :: "anchor \<Rightarrow> string" where
  \<comment> \<open>lines 108-121\<close>
  "text_search_area a =
     (case a_tr a of
        Some tr \<Rightarrow> join '' '' (el_cells tr)
      | None \<Rightarrow>
          join '' '' ((case a_parent a of Some p \<Rightarrow> [el_text p] | None \<Rightarrow> []) @
                      take 6 (a_next_siblings a)))"

subsection \<open>The loop over the links\<close>

fun parse_links :: "(string \<times> string) set \<Rightarrow> signal list \<Rightarrow> anchor list \<Rightarrow> signal list" where
  "parse_links seen results [] = results"
| "parse_links seen results (a # links) =
     (let key = (link_code a, link_name a)
      in if key \<in> seen then parse_links seen results links
         else
           (let seen' = insert key seen;
                potential = parse_potential (text_search_area a)
            in (case find_action (link_imgs a) of
                  None \<Rightarrow> parse_links seen' results links
                | Some act \<Rightarrow>
                    parse_links seen'
                      (results @ [\<lparr>code = link_code a, name = link_name a, action = act,
                                   potential = potential\<rparr>])
                      links)))"

definition parse_synthese :: "anchor list \<Rightarrow> signal list" where
  \<comment> \<open>the argument: \<open>soup.find_all("a")\<close>\<close>
  "parse_synthese soup = parse_links {} [] (filter is_candidate soup)"

text \<open>
  What the loop does, said without the loop: the candidates that are the first with their
  key, and the signal a candidate gives, if it gives one.
\<close>

fun first_links :: "(string \<times> string) set \<Rightarrow> anchor list \<Rightarrow> anchor list" where
  "first_links seen [] = []"
| "first_links seen (a # links) =
     (if link_key a \<in> seen then first_links seen links
      else a # first_links (insert (link_key a) seen) links)"

definition emit :: "anchor \<Rightarrow> signal option" where
  "emit a =
     (case find_action (link_imgs a) of
        None \<Rightarrow> None
      | Some act \<Rightarrow>
          Some \<lparr>code = link_code a, name = link_name a, action = act,
                potential = parse_potential (text_search_area a)\<rparr>)"

definition signal_key :: "signal \<Rightarrow> string \<times> string" where
  "signal_key s = (code s, name s)"

subsection \<open>Example pages\<close>

text \<open>A link in a table row: its target, its text, the images of the row, the texts of its cells.\<close>

definition row_link :: "string \<Rightarrow> string \<Rightarrow> img list \<Rightarrow> string list \<Rightarrow> anchor" where
  "row_link href txt imgs cells =
     \<lparr>a_href = Some href, a_text = txt,
      a_tr = Some \<lparr>el_imgs = imgs, el_text = join '' '' cells, el_cells = cells\<rparr>,
      a_parent = Some \<lparr>el_imgs = [], el_text = txt, el_cells = cells\<rparr>,
      a_next_sibling_imgs = [], a_all_next_imgs = imgs, a_next_siblings = []\<rparr>"

text \<open>
  A page of five links: a BUY row, a second row with the key of the first, a row without
  action icon, a link that is no candidate, a KEEP row.
\<close>

definition link_abc :: anchor where
  "link_abc = row_link ''conseil/abc'' '' Abc '' [Some ''/img/f_1b.png''] [''Abc'', ''12,5%'']"

definition link_abc_again :: anchor where
  "link_abc_again = row_link ''conseil/ABC'' ''Abc'' [Some ''/img/f_5b.png''] [''Abc'', ''1%'']"

definition link_nop :: anchor where
  "link_nop = row_link ''conseil/nop'' ''Nop'' [Some ''/img/logo.png''] [''Nop'', ''7%'']"

definition link_zzz :: anchor where
  "link_zzz = row_link ''other/zzz'' ''Zzz'' [Some ''f_1b.png''] []"

definition link_xyz :: anchor where
  "link_xyz = row_link ''conseil/xyz'' ''Xyz'' [None, Some ''icons/f_3b.png''] [''Xyz'', ''-3.2 %'']"

definition example_soup :: "anchor list" where
  "example_soup = [link_abc, link_abc_again, link_nop, link_zzz, link_xyz]"

definition example_signals :: "signal list" where
  "example_signals =
     [\<lparr>code = ''ABC'', name = ''Abc'', action = ''BUY'', potential = Finite (25 / 2)\<rparr>,
      \<lparr>code = ''XYZ'', name = ''Xyz'', action = ''KEEP'', potential = Finite (- (16 / 5))\<rparr>]"

section \<open>Grouping and formatting (\<open>format_items_sorted\<close>)\<close>

text \<open>
  The order of Python on floats, by a rank: the infinities below and above the finite
  numbers, the two zeros equal.
\<close>

definition float_rank :: "pyfloat \<Rightarrow> int \<times> rat" where
  "float_rank p =
     (case p of
        Finite x \<Rightarrow> (0, x)
      | NegZero \<Rightarrow> (0, 0)
      | PosInf \<Rightarrow> (1, 0)
      | NegInf \<Rightarrow> (- 1, 0))"

definition float_less :: "pyfloat \<Rightarrow> pyfloat \<Rightarrow> bool" where
  \<comment> \<open>\<open>a < b\<close> on floats\<close>
  "float_less a b \<longleftrightarrow> float_rank a < float_rank b"

definition desc_rank :: "pyfloat \<Rightarrow> int \<times> rat" where
  \<comment> \<open>the rank turned upside down\<close>
  "desc_rank p = (case float_rank p of (i, x) \<Rightarrow> (- i, - x))"

text \<open>
  \<open>sorted(items, key=..., reverse=True)\<close> sorts by descending key and keeps items of equal
  key in their original order: the stable ascending sort on the rank turned upside down.
\<close>

definition sorted_by_potential :: "signal list \<Rightarrow> signal list" where
  "sorted_by_potential items = sort_key (\<lambda>it. desc_rank (potential it)) items"

definition digit_char :: "nat \<Rightarrow> char" where
  "digit_char d = ''0123456789'' ! d"

fun show_nat :: "nat \<Rightarrow> string" where
  "show_nat n = (if n < 10 then [digit_char n] else show_nat (n div 10) @ [digit_char (n mod 10)])"

definition round_half_even :: "rat \<Rightarrow> int" where
  "round_half_even y =
     (let f = \<lfloor>y\<rfloor>; r = y - of_int f
      in if r < 1 / 2 then f else if 1 / 2 < r then f + 1 else if even f then f else f + 1)"

text \<open>
  \<open>f"{x:.2f}"\<close> for a finite number: the sign of a negative number, then its magnitude
  rounded to hundredths (ties to even) with two decimals.
\<close>

definition fmt_finite :: "rat \<Rightarrow> string" where
  "fmt_finite x =
     (let n = nat (round_half_even (\<bar>x\<bar> * 100))
      in (if x < 0 then ''-'' else []) @ show_nat (n div 100) @ ''.'' @
         [digit_char (n mod 100 div 10), digit_char (n mod 10)])"

text \<open>\<open>f"{pot:.2f}"\<close>: the negative zero keeps its sign, an infinity has no decimals.\<close>

definition fmt_2f :: "pyfloat \<Rightarrow> string" where
  "fmt_2f p =
     (case p of
        Finite x \<Rightarrow> fmt_finite x
      | NegZero \<Rightarrow> ''-0.00''
      | PosInf \<Rightarrow> ''inf''
      | NegInf \<Rightarrow> ''-inf'')"

definition em_dash :: string where
  \<comment> \<open>the character U+2014 of the listing line, as its UTF-8 bytes\<close>
  "em_dash = [CHR 0xE2, CHR 0x80, CHR 0x94]"

definition format_line :: "signal \<Rightarrow> string" where
  "format_line it =
     (let pot = potential it;
          sign = (if float_less (Finite 0) pot then ''+'' else [])
      in name it @ '' ('' @ code it @ '') '' @ em_dash @ '' '' @ sign @ fmt_2f pot @ ''%'')"

definition format_lines :: "signal list \<Rightarrow> string list" where
  \<comment> \<open>the list \<open>lines\<close> of \<open>format_items_sorted\<close>\<close>
  "format_lines items = map format_line (sorted_by_potential items)"

definition format_items_sorted :: "signal list \<Rightarrow> string" where
  "format_items_sorted items = join [CHR 0x0A] (format_lines items)"

text \<open>A bucket with the potentials 5.0, -2.0 and 10.0.\<close>

definition example_bucket :: "signal list" where
  "example_bucket =
     [\<lparr>code = ''AAA'', name = ''Aaa'', action = ''BUY'', potential = Finite 5\<rparr>,
      \<lparr>code = ''BBB'', name = ''Bbb'', action = ''BUY'', potential = Finite (- 2)\<rparr>,
      \<lparr>code = ''CCC'', name = ''Ccc'', action = ''BUY'', potential = Finite 10\<rparr>]"

text \<open>A bucket with the negative zero, an infinity and two equal potentials.\<close>

definition odd_bucket :: "signal list" where
  "odd_bucket =
     [\<lparr>code = ''NZ'', name = ''Nz'', action = ''SELL'', potential = NegZero\<rparr>,
      \<lparr>code = ''PZ'', name = ''Pz'', action = ''SELL'', potential = Finite 0\<rparr>,
      \<lparr>code = ''BIG'', name = ''Big'', action = ''SELL'', potential = PosInf\<rparr>]"

section \<open>The cache (\<open>scrape_with_cache\<close>)\<close>

text \<open>
  The dictionary \<open>_cache\<close>, and with it the number of calls of \<open>fetch_page\<close> made so far,
  which the program does not keep: it is there to count the fetches.
\<close>

record cache =
  ts :: rat
  data :: "signal list option"
  fetch_calls :: nat

definition initial_cache :: cache where
  \<comment> \<open>\<open>_cache = {"ts": 0, "data": None}\<close>\<close>
  "initial_cache = \<lparr>ts = 0, data = None, fetch_calls = 0\<rparr>"

definition usable :: "cache \<Rightarrow> signal list option" where
  \<comment> \<open>the cached list when \<open>_cache["data"]\<close> is true: neither \<open>None\<close> nor the empty list\<close>
  "usable c =
     (case data c of
        None \<Rightarrow> None
      | Some items \<Rightarrow> if items = [] then None else Some items)"

text \<open>
  The \<open>try\<close> block. The argument \<open>page\<close> is what \<open>fetch_page\<close> gives at this call: the
  exception it raises, or the page it returns, parsed.
\<close>

definition refresh :: "rat \<Rightarrow> 'e + anchor list \<Rightarrow> cache \<Rightarrow> ('e + signal list) \<times> cache" where
  "refresh now page c =
     (let c = c\<lparr>fetch_calls := fetch_calls c + 1\<rparr>
      in (case page of
            Inr soup \<Rightarrow>
              (let items = parse_synthese soup
               in (Inr items, c\<lparr>data := Some items, ts := now\<rparr>))
          | Inl e \<Rightarrow>
              (case usable c of
                 Some items \<Rightarrow> (Inr items, c)
               | None \<Rightarrow> (Inl e, c))))"

definition scrape_with_cache ::
    "int \<Rightarrow> rat \<Rightarrow> 'e + anchor list \<Rightarrow> cache \<Rightarrow> ('e + signal list) \<times> cache" where
  "scrape_with_cache CACHE_TTL now page c =
     (case usable c of
        Some items \<Rightarrow>
          if now - ts c < of_int CACHE_TTL then (Inr items, c) else refresh now page c
      | None \<Rightarrow> refresh now page c)"

text \<open>Calls of \<open>scrape_with_cache\<close> one after the other, each with its time and its page.\<close>

fun gets :: "int \<Rightarrow> (rat \<times> ('e + anchor list)) list \<Rightarrow> cache \<Rightarrow>
    ('e + signal list) list \<times> cache" where
  "gets CACHE_TTL [] c = ([], c)"
| "gets CACHE_TTL ((now, page) # calls) c =
     (case scrape_with_cache CACHE_TTL now page c of
        (r, c') \<Rightarrow>
          (case gets CACHE_TTL calls c' of
             (rs, c'') \<Rightarrow> (r # rs, c'')))"

definition outcome :: "'e + anchor list \<Rightarrow> 'e + signal list" where
  \<comment> \<open>what a fetch gives when nothing usable is cached\<close>
  "outcome page = (case page of Inl e \<Rightarrow> Inl e | Inr soup \<Rightarrow> Inr (parse_synthese soup))"

section \<open>The companion scraper: saving to the document store\<close>
































section \<open>Properties of message splitting\<close>

lemma concat_splitlines_from: "concat (splitlines_from cur s) = cur @ s"
  by (induction cur s rule: splitlines_from.induct) auto

lemma concat_splitlines: "concat (splitlines s) = s"
  by (simp add: splitlines_def concat_splitlines_from)

lemma splitlines_from_nonempty: "l \<in> set (splitlines_from cur s) \<Longrightarrow> l \<noteq> []"
  by (induction cur s rule: splitlines_from.induct) (auto split: if_splits)

lemma pack_lines_concat:
  "pack_lines limit parts cur ls = (ps, c) \<Longrightarrow> concat ps @ c = concat parts @ cur @ concat ls"
  by (induction limit parts cur ls rule: pack_lines.induct) (auto split: if_splits)

lemma pack_groups_lines:
  "pack_groups limit gs g ls = (hs, h) \<Longrightarrow>
     pack_lines limit (map concat gs) (concat g) ls = (map concat hs, concat h)"
  by (induction limit gs g ls rule: pack_groups.induct) (auto split: if_splits)

lemma pack_groups_concat:
  "pack_groups limit gs g ls = (hs, h) \<Longrightarrow> concat hs @ h = concat gs @ g @ ls"
  by (induction limit gs g ls rule: pack_groups.induct) (auto split: if_splits)

lemma split_long_message_groups:
  "split_long_message text limit = map concat (line_groups text limit)"
proof (cases "int (length text) \<le> limit")
  case True
  then show ?thesis
    by (simp add: split_long_message_def line_groups_def concat_splitlines)
next
  case False
  obtain hs h where p: "pack_groups limit [] [] (splitlines text) = (hs, h)"
    by (cases "pack_groups limit [] [] (splitlines text)")
  from pack_groups_lines [OF p]
  have "pack_lines limit [] [] (splitlines text) = (map concat hs, concat h)"
    by simp
  with False p show ?thesis
    by (simp add: split_long_message_def line_groups_def)
qed

lemma concat_line_groups: "concat (line_groups text limit) = splitlines text"
proof (cases "int (length text) \<le> limit")
  case True
  then show ?thesis by (simp add: line_groups_def)
next
  case False
  obtain hs h where p: "pack_groups limit [] [] (splitlines text) = (hs, h)"
    by (cases "pack_groups limit [] [] (splitlines text)")
  from pack_groups_concat [OF p] have c: "concat hs @ h = splitlines text"
    by simp
  have "concat h = [] \<Longrightarrow> h = []"
  proof (rule ccontr)
    assume e: "concat h = []" and n: "h \<noteq> []"
    then obtain l where l: "l \<in> set h" by (cases h) auto
    with c have "l \<in> set (splitlines text)"
      by (metis Un_iff set_append)
    then have "l \<noteq> []"
      by (simp add: splitlines_def splitlines_from_nonempty)
    with e l show False by auto
  qed
  with False p c show ?thesis
    by (auto simp: line_groups_def)
qed

text \<open>
  C10. Message splitting loses nothing: for every text and every limit (positive or
  not), the parts concatenated in order are the text, line terminators included.
\<close>

theorem split_long_message_concat: "concat (split_long_message text limit) = text"
proof (cases "int (length text) \<le> limit")
  case True
  then show ?thesis by (simp add: split_long_message_def)
next
  case False
  obtain ps c where p: "pack_lines limit [] [] (splitlines text) = (ps, c)"
    by (cases "pack_lines limit [] [] (splitlines text)")
  from pack_lines_concat [OF p] have "concat ps @ c = text"
    by (simp add: concat_splitlines)
  with False p show ?thesis
    by (auto simp: split_long_message_def)
qed

lemma greedy_chain_snoc:
  "greedy_chain limit (xs @ [a]) \<Longrightarrow> b \<noteq> [] \<Longrightarrow>
   int (length (concat a)) + int (length (hd b)) > limit \<Longrightarrow>
   greedy_chain limit (xs @ [a, b])"
  by (induction limit xs rule: greedy_chain.induct) auto

lemma greedy_chain_grow_last:
  "greedy_chain limit (xs @ [g]) \<Longrightarrow> greedy_chain limit (xs @ [g @ [l]])"
proof (induction limit xs rule: greedy_chain.induct)
  case (1 limit a b rest)
  then show ?case by simp
next
  case (2 limit a)
  then show ?case by (cases g) auto
next
  case (3 limit)
  then show ?case by simp
qed

lemma greedy_chain_butlast: "greedy_chain limit (xs @ [g]) \<Longrightarrow> greedy_chain limit xs"
proof (induction limit xs rule: greedy_chain.induct)
  case (1 limit a b rest)
  then show ?case by simp
next
  case (2 limit a)
  then show ?case by simp
next
  case (3 limit)
  then show ?case by simp
qed

lemma greedy_chain_nth:
  "greedy_chain limit gs \<Longrightarrow> Suc i < length gs \<Longrightarrow>
   gs ! Suc i \<noteq> [] \<and> int (length (concat (gs ! i))) + int (length (hd (gs ! Suc i))) > limit"
proof (induction limit gs arbitrary: i rule: greedy_chain.induct)
  case (1 limit a b rest)
  then show ?case by (cases i) auto
next
  case (2 limit a)
  then show ?case by simp
next
  case (3 limit)
  then show ?case by simp
qed

lemma pack_groups_greedy:
  "pack_groups limit gs g ls = (hs, h) \<Longrightarrow> greedy_chain limit (gs @ [g]) \<Longrightarrow>
   greedy_chain limit (hs @ [h])"
proof (induction limit gs g ls rule: pack_groups.induct)
  case (1 limit gs g)
  then show ?case by simp
next
  case (2 limit gs g line lines)
  show ?case
  proof (cases "int (length (concat g)) + int (length line) > limit")
    case True
    with "2.prems" have "greedy_chain limit (gs @ [g, [line]])"
      by (intro greedy_chain_snoc) auto
    with True "2.IH"(1) "2.prems"(1) show ?thesis by simp
  next
    case False
    with "2.prems" have "greedy_chain limit (gs @ [g @ [line]])"
      by (intro greedy_chain_grow_last) auto
    with False "2.IH"(2) "2.prems"(1) show ?thesis by simp
  qed
qed

lemma pack_groups_within:
  "pack_groups limit gs g ls = (hs, h) \<Longrightarrow>
   (\<forall>x \<in> set (gs @ [g]). 2 \<le> length x \<longrightarrow> int (length (concat x)) \<le> limit) \<Longrightarrow>
   (\<forall>x \<in> set (hs @ [h]). 2 \<le> length x \<longrightarrow> int (length (concat x)) \<le> limit)"
proof (induction limit gs g ls rule: pack_groups.induct)
  case (1 limit gs g)
  then show ?case by simp
next
  case (2 limit gs g line lines)
  show ?case
  proof (cases "int (length (concat g)) + int (length line) > limit")
    case True
    with "2.IH"(1) "2.prems" show ?thesis by simp
  next
    case False
    with "2.IH"(2) "2.prems" show ?thesis by simp
  qed
qed

lemma line_groups_greedy: "greedy_chain limit (line_groups text limit)"
proof (cases "int (length text) \<le> limit")
  case True
  then show ?thesis by (simp add: line_groups_def)
next
  case False
  obtain hs h where p: "pack_groups limit [] [] (splitlines text) = (hs, h)"
    by (cases "pack_groups limit [] [] (splitlines text)")
  from pack_groups_greedy [OF p] have "greedy_chain limit (hs @ [h])" by simp
  with False p show ?thesis
    by (auto simp: line_groups_def dest: greedy_chain_butlast)
qed

lemma line_groups_within:
  "x \<in> set (line_groups text limit) \<Longrightarrow> 2 \<le> length x \<Longrightarrow> int (length (concat x)) \<le> limit"
proof (cases "int (length text) \<le> limit")
  case True
  assume "x \<in> set (line_groups text limit)"
  with True show ?thesis by (simp add: line_groups_def concat_splitlines)
next
  case False
  assume x: "x \<in> set (line_groups text limit)" and l: "2 \<le> length x"
  obtain hs h where p: "pack_groups limit [] [] (splitlines text) = (hs, h)"
    by (cases "pack_groups limit [] [] (splitlines text)")
  from pack_groups_within [OF p]
  have "\<forall>x \<in> set (hs @ [h]). 2 \<le> length x \<longrightarrow> int (length (concat x)) \<le> limit" by simp
  moreover from False p x have "x \<in> set (hs @ [h])"
    by (auto simp: line_groups_def split: if_splits)
  ultimately show ?thesis using l by blast
qed

lemma split_five_lines:
  assumes "splitlines text = [l1, l2, l3, l4, l5]"
    and "int (length (l1 @ l2 @ l3)) \<le> limit"
    and "int (length (l1 @ l2 @ l3 @ l4)) > limit"
  shows "split_long_message text limit =
    (l1 @ l2 @ l3) # (if int (length l4) + int (length l5) > limit then [l4, l5] else [l4 @ l5])"
proof -
  have "l4 \<in> set (splitlines text)" using assms(1) by simp
  then have l4: "l4 \<noteq> []" by (simp add: splitlines_def splitlines_from_nonempty)
  have "l5 \<in> set (splitlines text)" using assms(1) by simp
  then have l5: "l5 \<noteq> []" by (simp add: splitlines_def splitlines_from_nonempty)
  have "text = l1 @ l2 @ l3 @ l4 @ l5"
    using concat_splitlines [of "text"] assms(1) by simp
  then have big: "\<not> int (length text) \<le> limit" using assms(3) by simp
  show ?thesis
    using big assms l4 l5 by (simp add: split_long_message_def)
qed

text \<open>
  C5 (amended). Message splitting never breaks inside a line. A text within the limit is returned as
  one part. In every case the parts are the concatenations of consecutive groups of whole
  lines that together are the lines of the text; a part made of two lines or more is within
  the limit (so only a single over-long line makes a part exceed it); packing is greedy: the
  first line of each further part did not fit into the part before it. For five lines of
  which the first three fit and the fourth does not fit with them, part one is lines 1-3
  and part two starts with line 4.
\<close>

theorem split_long_message_lines:
  "(int (length text) \<le> limit \<longrightarrow> split_long_message text limit = [text]) \<and>
   split_long_message text limit = map concat (line_groups text limit) \<and>
   concat (line_groups text limit) = splitlines text \<and>
   (\<forall>g \<in> set (line_groups text limit). 2 \<le> length g \<longrightarrow> int (length (concat g)) \<le> limit) \<and>
   (\<forall>i. Suc i < length (line_groups text limit) \<longrightarrow>
      line_groups text limit ! Suc i \<noteq> [] \<and>
      int (length (concat (line_groups text limit ! i))) +
        int (length (hd (line_groups text limit ! Suc i))) > limit) \<and>
   (splitlines text = [l1, l2, l3, l4, l5] \<and> int (length (l1 @ l2 @ l3)) \<le> limit \<and>
      int (length (l1 @ l2 @ l3 @ l4)) > limit \<longrightarrow>
    split_long_message text limit =
      (l1 @ l2 @ l3) # (if int (length l4) + int (length l5) > limit then [l4, l5] else [l4 @ l5]))"
proof (intro conjI impI ballI allI)
  assume "int (length text) \<le> limit"
  then show "split_long_message text limit = [text]"
    by (simp add: split_long_message_def)
next
  show "split_long_message text limit = map concat (line_groups text limit)"
    by (rule split_long_message_groups)
next
  show "concat (line_groups text limit) = splitlines text"
    by (rule concat_line_groups)
next
  fix g assume "g \<in> set (line_groups text limit)" "2 \<le> length g"
  then show "int (length (concat g)) \<le> limit" by (rule line_groups_within)
next
  fix i assume i: "Suc i < length (line_groups text limit)"
  from greedy_chain_nth [OF line_groups_greedy i]
  show "line_groups text limit ! Suc i \<noteq> []" by simp
next
  fix i assume i: "Suc i < length (line_groups text limit)"
  from greedy_chain_nth [OF line_groups_greedy i]
  show "int (length (concat (line_groups text limit ! i))) +
        int (length (hd (line_groups text limit ! Suc i))) > limit" by simp
next
  assume "splitlines text = [l1, l2, l3, l4, l5] \<and> int (length (l1 @ l2 @ l3)) \<le> limit \<and>
      int (length (l1 @ l2 @ l3 @ l4)) > limit"
  then show "split_long_message text limit =
      (l1 @ l2 @ l3) # (if int (length l4) + int (length l5) > limit then [l4, l5] else [l4 @ l5])"
    by (intro split_five_lines) auto
qed

theorem split_long_message_lines_witness:
  "splitlines ''ab\<newline>cd\<newline>ef\<newline>ghij\<newline>k'' =
     [''ab\<newline>'', ''cd\<newline>'', ''ef\<newline>'', ''ghij\<newline>'', ''k''] \<and>
   split_long_message ''ab\<newline>cd\<newline>ef\<newline>ghij\<newline>k'' 9 =
     [''ab\<newline>cd\<newline>ef\<newline>'', ''ghij\<newline>k''] \<and>
   line_groups ''ab\<newline>cd\<newline>ef\<newline>ghij\<newline>k'' 9 =
     [[''ab\<newline>'', ''cd\<newline>'', ''ef\<newline>''], [''ghij\<newline>'', ''k'']] \<and>
   split_long_message ''ab\<newline>cd'' 9 = [''ab\<newline>cd'']"
proof -
  have l: "splitlines ''ab\<newline>cd\<newline>ef\<newline>ghij\<newline>k'' =
     [''ab\<newline>'', ''cd\<newline>'', ''ef\<newline>'', ''ghij\<newline>'', ''k'']"
    by (simp add: splitlines_def is_linebreak_def)
  have g: "line_groups ''ab\<newline>cd\<newline>ef\<newline>ghij\<newline>k'' 9 =
     [[''ab\<newline>'', ''cd\<newline>'', ''ef\<newline>''], [''ghij\<newline>'', ''k'']]"
    by (simp add: line_groups_def l)
  show ?thesis
    using split_long_message_lines
      [of "''ab\<newline>cd\<newline>ef\<newline>ghij\<newline>k''" 9
          "''ab\<newline>''" "''cd\<newline>''" "''ef\<newline>''" "''ghij\<newline>''" "''k''"]
      split_long_message_lines [of "''ab\<newline>cd''" 9]
    by (simp add: l g)
qed


text \<open>
  The claim as stated fails: a line longer than the limit makes a part that exceeds the
  limit, and when it is the first line the first part is empty.
\<close>

theorem split_long_message_long_line:
  "splitlines ''abcdefghij\<newline>k'' = [''abcdefghij\<newline>'', ''k''] \<and>
   split_long_message ''abcdefghij\<newline>k'' 5 = [[], ''abcdefghij\<newline>'', ''k''] \<and>
   \<not> int (length ''abcdefghij\<newline>'') \<le> 5"
  by (simp add: split_long_message_def splitlines_def is_linebreak_def)

section \<open>Properties of the pattern\<close>

lemma takeWhile_run:
  "list_all P ds \<Longrightarrow> r = [] \<or> \<not> P (hd r) \<Longrightarrow>
   takeWhile P (ds @ r) = ds \<and> dropWhile P (ds @ r) = r"
proof (induction ds)
  case Nil
  then show ?case by (cases r) auto
next
  case (Cons d ds)
  then show ?case by simp
qed

lemma dropWhile_head: "dropWhile P s = x # r \<Longrightarrow> \<not> P x"
  by (metis dropWhile_eq_Cons_conv)

lemma list_all_takeWhile: "list_all P (takeWhile P s)"
  by (induction s) auto

lemma take_sign_parts:
  "take_sign s = (sg, r0) \<Longrightarrow> s = sg @ r0 \<and> (sg = [] \<or> sg = ''+'' \<or> sg = ''-'')"
  by (cases s) (auto simp: take_sign_def split: if_splits)

lemma take_fraction_parts:
  "take_fraction s = (fr, r2) \<Longrightarrow>
   s = fr @ r2 \<and>
   (fr = [] \<or> (\<exists>sep fs. fr = sep # fs \<and> (sep = CHR ''.'' \<or> sep = CHR '','') \<and>
            fs \<noteq> [] \<and> list_all is_digit fs))"
proof (cases s)
  case Nil
  assume "take_fraction s = (fr, r2)"
  with Nil show ?thesis by (simp add: take_fraction_def)
next
  case (Cons c cs)
  assume t: "take_fraction s = (fr, r2)"
  show ?thesis
  proof (cases "(c = CHR ''.'' \<or> c = CHR '','') \<and> takeWhile is_digit cs \<noteq> []")
    case True
    with t Cons have "fr = c # takeWhile is_digit cs" "r2 = dropWhile is_digit cs"
      by (simp_all add: take_fraction_def)
    with True Cons list_all_takeWhile [of is_digit cs] show ?thesis by simp
  next
    case False
    with t Cons have "fr = []" "r2 = s"
      by (simp_all add: take_fraction_def)
    then show ?thesis by simp
  qed
qed

lemma match_here_token:
  assumes "match_here s = Some g"
  shows "token_at s g"
proof -
  obtain sg r0 where sign: "take_sign s = (sg, r0)" by (cases "take_sign s")
  define ds where "ds = takeWhile is_digit r0"
  define r1 where "r1 = dropWhile is_digit r0"
  obtain fr r2 where frac: "take_fraction r1 = (fr, r2)" by (cases "take_fraction r1")
  have m: "match_here s =
    (if ds = [] then None
     else (case dropWhile is_space r2 of [] \<Rightarrow> None
           | p # _ \<Rightarrow> if p = CHR ''%'' then Some (sg @ ds @ fr) else None))"
    using frac unfolding ds_def r1_def by (simp add: match_here_def sign Let_def)
  from take_sign_parts [OF sign]
  have s: "s = sg @ r0" and sg: "sg = [] \<or> sg = ''+'' \<or> sg = ''-''" by simp_all
  have r0: "r0 = ds @ r1" by (simp add: ds_def r1_def)
  from take_fraction_parts [OF frac]
  have r1: "r1 = fr @ r2" and
    fr: "fr = [] \<or> (\<exists>sep fs. fr = sep # fs \<and> (sep = CHR ''.'' \<or> sep = CHR '','') \<and>
            fs \<noteq> [] \<and> list_all is_digit fs)" by simp_all
  from assms m have ds: "ds \<noteq> []" by (simp split: if_splits)
  from assms m ds obtain rest where
    d: "dropWhile is_space r2 = CHR ''%'' # rest" and g: "g = sg @ ds @ fr"
    by (cases "dropWhile is_space r2") (simp_all split: if_splits)
  have r2: "r2 = takeWhile is_space r2 @ CHR ''%'' # rest"
    using d takeWhile_dropWhile_id [of is_space r2] by simp
  have "list_all is_digit ds" by (simp add: ds_def list_all_takeWhile)
  with g sg ds fr have "number_token g"
    unfolding number_token_def by blast
  moreover have "s = g @ takeWhile is_space r2 @ CHR ''%'' # rest"
    using s r0 r1 r2 g by simp
  ultimately show ?thesis
    unfolding token_at_def using list_all_takeWhile [of is_space r2] by blast
qed

lemma token_match_here:
  assumes "token_at s g"
  shows "match_here s = Some g"
proof -
  from assms obtain sg ds fr ws rest where
    g: "g = sg @ ds @ fr" and sg: "sg = [] \<or> sg = ''+'' \<or> sg = ''-''" and
    ds: "ds \<noteq> []" "list_all is_digit ds" and
    fr: "fr = [] \<or> (\<exists>sep fs. fr = sep # fs \<and> (sep = CHR ''.'' \<or> sep = CHR '','') \<and>
            fs \<noteq> [] \<and> list_all is_digit fs)" and
    s: "s = g @ ws @ CHR ''%'' # rest" and ws: "list_all is_space ws"
    unfolding token_at_def number_token_def by blast
  define tl2 where "tl2 = ws @ CHR ''%'' # rest"
  have hd_tl2: "hd tl2 = CHR ''%'' \<or> is_space (hd tl2)"
    using ws by (cases ws) (simp_all add: tl2_def)
  then have nd: "\<not> is_digit (hd tl2)" and nsep: "hd tl2 \<noteq> CHR ''.''" "hd tl2 \<noteq> CHR '',''"
    by (auto simp: is_digit_def is_space_def)
  have tl2: "tl2 \<noteq> []" by (simp add: tl2_def)
  have "\<not> is_space CHR ''%''" by (simp add: is_space_def)
  with takeWhile_run [of is_space ws "CHR ''%'' # rest"] ws
  have dw: "dropWhile is_space tl2 = CHR ''%'' # rest"
    by (simp add: tl2_def)
  obtain d ds' where dsc: "ds = d # ds'" using ds(1) by (cases ds) auto
  with ds(2) have "is_digit d" by simp
  then have d: "d \<noteq> CHR ''+''" "d \<noteq> CHR ''-''" by (auto simp: is_digit_def)
  have sgn: "take_sign s = (sg, ds @ fr @ tl2)"
    using sg
  proof (elim disjE)
    assume "sg = []"
    with s g dsc d show ?thesis by (simp add: take_sign_def tl2_def)
  next
    assume "sg = ''+''"
    with s g show ?thesis by (simp add: take_sign_def tl2_def)
  next
    assume "sg = ''-''"
    with s g show ?thesis by (simp add: take_sign_def tl2_def)
  qed
  have "fr @ tl2 = [] \<or> \<not> is_digit (hd (fr @ tl2))"
    using fr nd by (auto simp: is_digit_def)
  from takeWhile_run [OF ds(2) this]
  have run1: "takeWhile is_digit (ds @ fr @ tl2) = ds" "dropWhile is_digit (ds @ fr @ tl2) = fr @ tl2"
    by simp_all
  have frac: "take_fraction (fr @ tl2) = (fr, tl2)"
  proof (cases fr)
    case Nil
    with tl2 nsep show ?thesis by (cases tl2) (simp_all add: take_fraction_def)
  next
    case (Cons sep fs)
    with fr have f: "(sep = CHR ''.'' \<or> sep = CHR '','')" "fs \<noteq> []" "list_all is_digit fs"
      by auto
    from takeWhile_run [OF f(3), of tl2] nd
    have "takeWhile is_digit (fs @ tl2) = fs" "dropWhile is_digit (fs @ tl2) = tl2" by simp_all
    with Cons f show ?thesis by (simp add: take_fraction_def)
  qed
  show ?thesis
    by (simp add: match_here_def sgn Let_def run1 frac ds(1) dw g)
qed

lemma match_here_iff: "match_here s = Some g \<longleftrightarrow> token_at s g"
  using match_here_token token_match_here by blast

lemma re_search_None:
  "re_search s = None \<longleftrightarrow> (\<forall>suf. suffix suf s \<longrightarrow> match_here suf = None)"
proof (induction s)
  case Nil
  then show ?case by simp
next
  case (Cons c cs)
  have "(\<forall>suf. suffix suf (c # cs) \<longrightarrow> match_here suf = None) \<longleftrightarrow>
    match_here (c # cs) = None \<and> (\<forall>suf. suffix suf cs \<longrightarrow> match_here suf = None)"
    unfolding suffix_Cons by metis
  with Cons show ?case by (cases "match_here (c # cs)") simp_all
qed

lemma re_search_Some:
  "re_search s = Some g \<longleftrightarrow>
     (\<exists>suf. suffix suf s \<and> match_here suf = Some g \<and>
        (\<forall>suf'. suffix suf' s \<longrightarrow> length suf < length suf' \<longrightarrow> match_here suf' = None))"
proof (induction s)
  case Nil
  then show ?case by auto
next
  case (Cons c cs)
  have le: "\<And>suf. suffix suf cs \<Longrightarrow> length suf < Suc (length cs)"
    by (simp add: le_imp_less_Suc suffix_length_le)
  show ?case
  proof (cases "match_here (c # cs)")
    case None
    show ?thesis
    proof
      assume "re_search (c # cs) = Some g"
      with None have "re_search cs = Some g" by simp
      with Cons obtain suf where suf: "suffix suf cs" "match_here suf = Some g"
        and first: "\<forall>suf'. suffix suf' cs \<longrightarrow> length suf < length suf' \<longrightarrow> match_here suf' = None"
        by blast
      from suf(1) have "suffix suf (c # cs)" by (simp add: suffix_Cons)
      moreover from first None
      have "\<forall>suf'. suffix suf' (c # cs) \<longrightarrow> length suf < length suf' \<longrightarrow> match_here suf' = None"
        unfolding suffix_Cons by blast
      ultimately show "\<exists>suf. suffix suf (c # cs) \<and> match_here suf = Some g \<and>
        (\<forall>suf'. suffix suf' (c # cs) \<longrightarrow> length suf < length suf' \<longrightarrow> match_here suf' = None)"
        using suf(2) by blast
    next
      assume "\<exists>suf. suffix suf (c # cs) \<and> match_here suf = Some g \<and>
        (\<forall>suf'. suffix suf' (c # cs) \<longrightarrow> length suf < length suf' \<longrightarrow> match_here suf' = None)"
      then obtain suf where suf: "suffix suf (c # cs)" "match_here suf = Some g"
        and first: "\<forall>suf'. suffix suf' (c # cs) \<longrightarrow> length suf < length suf' \<longrightarrow> match_here suf' = None"
        by blast
      from suf None have "suffix suf cs" unfolding suffix_Cons by auto
      moreover from first
      have "\<forall>suf'. suffix suf' cs \<longrightarrow> length suf < length suf' \<longrightarrow> match_here suf' = None"
        unfolding suffix_Cons by blast
      ultimately have "re_search cs = Some g" using Cons suf(2) by blast
      with None show "re_search (c # cs) = Some g" by simp
    qed
  next
    case (Some h)
    have "(\<exists>suf. suffix suf (c # cs) \<and> match_here suf = Some g \<and>
        (\<forall>suf'. suffix suf' (c # cs) \<longrightarrow> length suf < length suf' \<longrightarrow> match_here suf' = None))
      \<longleftrightarrow> h = g"
    proof
      assume "\<exists>suf. suffix suf (c # cs) \<and> match_here suf = Some g \<and>
        (\<forall>suf'. suffix suf' (c # cs) \<longrightarrow> length suf < length suf' \<longrightarrow> match_here suf' = None)"
      then obtain suf where suf: "suffix suf (c # cs)" "match_here suf = Some g"
        and first: "\<forall>suf'. suffix suf' (c # cs) \<longrightarrow> length suf < length suf' \<longrightarrow> match_here suf' = None"
        by blast
      show "h = g"
      proof (cases "suf = c # cs")
        case True
        with suf Some show ?thesis by simp
      next
        case False
        with suf(1) have "suffix suf cs" by (simp add: suffix_Cons)
        then have "length suf < length (c # cs)" using le by simp
        with first have "match_here (c # cs) = None" by blast
        with Some show ?thesis by simp
      qed
    next
      assume "h = g"
      moreover have "\<And>suf'. suffix suf' (c # cs) \<Longrightarrow> \<not> length (c # cs) < length suf'"
        using suffix_length_le by fastforce
      ultimately have "suffix (c # cs) (c # cs) \<and> match_here (c # cs) = Some g \<and>
        (\<forall>suf'. suffix suf' (c # cs) \<longrightarrow> length (c # cs) < length suf' \<longrightarrow> match_here suf' = None)"
        using Some by blast
      then show "\<exists>suf. suffix suf (c # cs) \<and> match_here suf = Some g \<and>
        (\<forall>suf'. suffix suf' (c # cs) \<longrightarrow> length suf < length suf' \<longrightarrow> match_here suf' = None)"
        by blast
    qed
    with Some show ?thesis by simp
  qed
qed

section \<open>Properties of the extractor\<close>

lemma parse_links_emit:
  "parse_links seen results links = results @ List.map_filter emit (first_links seen links)"
proof (induction links arbitrary: seen results)
  case Nil
  then show ?case by (simp add: List.map_filter_simps)
next
  case (Cons a links)
  show ?case
  proof (cases "link_key a \<in> seen")
    case True
    with Cons show ?thesis by (simp add: link_key_def)
  next
    case False
    with Cons show ?thesis
      by (cases "find_action (link_imgs a)")
        (simp_all add: link_key_def emit_def List.map_filter_simps Let_def)
  qed
qed

lemma first_links_keys:
  "a \<in> set (first_links seen links) \<Longrightarrow> link_key a \<notin> seen \<and> a \<in> set links"
  by (induction links arbitrary: seen) (auto split: if_splits)

lemma first_links_distinct: "distinct (map link_key (first_links seen links))"
proof (induction links arbitrary: seen)
  case Nil
  then show ?case by simp
next
  case (Cons a links)
  have "link_key a \<notin> link_key ` set (first_links (insert (link_key a) seen) links)"
  proof
    assume "link_key a \<in> link_key ` set (first_links (insert (link_key a) seen) links)"
    then obtain b where b: "b \<in> set (first_links (insert (link_key a) seen) links)"
      and k: "link_key b = link_key a" by auto
    from first_links_keys [OF b] k show False by simp
  qed
  with Cons show ?case by simp
qed

lemma first_links_subseq: "subseq (first_links seen links) links"
  by (induction links arbitrary: seen) auto

lemma first_links_find:
  "a \<in> set (first_links seen links) \<Longrightarrow> find (\<lambda>b. link_key b = link_key a) links = Some a"
proof (induction links arbitrary: seen)
  case Nil
  then show ?case by simp
next
  case (Cons b links)
  show ?case
  proof (cases "link_key b \<in> seen")
    case True
    with Cons.prems have a: "a \<in> set (first_links seen links)" by simp
    from first_links_keys [OF a] True have "link_key b \<noteq> link_key a" by auto
    with Cons.IH [OF a] show ?thesis by simp
  next
    case False
    show ?thesis
    proof (cases "a = b")
      case True
      then show ?thesis by simp
    next
      case ne: False
      with False Cons.prems have a: "a \<in> set (first_links (insert (link_key b) seen) links)"
        by simp
      from first_links_keys [OF a] have "link_key b \<noteq> link_key a" by auto
      with Cons.IH [OF a] show ?thesis by simp
    qed
  qed
qed

lemma first_links_covers:
  "a \<in> set links \<Longrightarrow> link_key a \<notin> seen \<Longrightarrow>
   \<exists>b \<in> set (first_links seen links). link_key b = link_key a"
proof (induction links arbitrary: seen)
  case Nil
  then show ?case by simp
next
  case (Cons c links)
  show ?case
  proof (cases "link_key c = link_key a")
    case True
    with Cons.prems show ?thesis by auto
  next
    case False
    with Cons.prems have a: "a \<in> set links" by auto
    show ?thesis
    proof (cases "link_key c \<in> seen")
      case True
      with Cons.IH [OF a Cons.prems(2)] show ?thesis by simp
    next
      case nc: False
      from False Cons.prems(2) have "link_key a \<notin> insert (link_key c) seen" by auto
      from Cons.IH [OF a this] nc show ?thesis by auto
    qed
  qed
qed

lemma find_action_Some:
  "find_action imgs = Some act \<Longrightarrow>
   \<exists>src. Some src \<in> set imgs \<and> map_of ACTION_MAP (last_segment src) = Some act"
proof (induction imgs)
  case Nil
  then show ?case by simp
next
  case (Cons img imgs)
  show ?case
  proof (cases img)
    case None
    with Cons show ?thesis by auto
  next
    case (Some src)
    with Cons show ?thesis
      by (cases "map_of ACTION_MAP (last_segment src)") (auto simp: Let_def split: if_splits)
  qed
qed



lemma ACTION_MAP_values:
  "map_of ACTION_MAP f = Some act \<Longrightarrow> act \<in> {''BUY'', ''SELL'', ''KEEP'', ''TAKE PROFIT''}"
  by (auto simp: ACTION_MAP_def split: if_splits)

lemma emit_Some:
  "emit a = Some s \<Longrightarrow>
   signal_key s = link_key a \<and> code s = link_code a \<and> name s = link_name a \<and>
   find_action (link_imgs a) = Some (action s) \<and>
   potential s = parse_potential (text_search_area a)"
  by (auto simp: emit_def signal_key_def link_key_def split: option.splits)

lemma map_filter_keys:
  "map signal_key (List.map_filter emit xs) = map link_key (filter (\<lambda>a. emit a \<noteq> None) xs)"
proof (induction xs)
  case Nil
  then show ?case by (simp add: List.map_filter_simps)
next
  case (Cons a xs)
  then show ?case
    by (cases "emit a") (auto simp: List.map_filter_simps dest: emit_Some)
qed

lemma set_map_filter_emit:
  "s \<in> set (List.map_filter emit xs) \<longleftrightarrow> (\<exists>a \<in> set xs. emit a = Some s)"
  by (induction xs) (auto simp: List.map_filter_simps split: option.splits)

lemma parse_synthese_emit:
  "parse_synthese soup = List.map_filter emit (first_links {} (filter is_candidate soup))"
  by (simp add: parse_synthese_def parse_links_emit)

lemma strip_nonempty: "strip s \<noteq> [] \<longleftrightarrow> (\<exists>c \<in> set s. \<not> is_space c)"
proof -
  have d: "\<And>xs. dropWhile is_space xs \<noteq> [] \<longleftrightarrow> (\<exists>c \<in> set xs. \<not> is_space c)"
    by (simp add: dropWhile_eq_Nil_conv)
  have "strip s \<noteq> [] \<longleftrightarrow> dropWhile is_space (rev (dropWhile is_space s)) \<noteq> []"
    by (simp add: strip_def)
  also have "\<dots> \<longleftrightarrow> (\<exists>c \<in> set (dropWhile is_space s). \<not> is_space c)"
    using d [of "rev (dropWhile is_space s)"] by simp
  also have "\<dots> \<longleftrightarrow> (\<exists>c \<in> set s. \<not> is_space c)"
  proof
    assume "\<exists>c \<in> set (dropWhile is_space s). \<not> is_space c"
    then show "\<exists>c \<in> set s. \<not> is_space c" by (meson set_dropWhileD)
  next
    assume "\<exists>c \<in> set s. \<not> is_space c"
    then have "dropWhile is_space s \<noteq> []" using d by blast
    then have "\<not> is_space (hd (dropWhile is_space s))" by (rule hd_dropWhile)
    moreover have "hd (dropWhile is_space s) \<in> set (dropWhile is_space s)"
      using \<open>dropWhile is_space s \<noteq> []\<close> by simp
    ultimately show "\<exists>c \<in> set (dropWhile is_space s). \<not> is_space c" by blast
  qed
  finally show ?thesis .
qed

lemma link_code_nonempty:
  "a_href a = Some x \<Longrightarrow> link_code a \<noteq> [] \<longleftrightarrow> (\<exists>c \<in> set (last_segment x). \<not> is_space c)"
  by (simp add: link_code_def upper_def strip_nonempty)

lemma first_links_iff:
  "a \<in> set (first_links {} links) \<longleftrightarrow> find (\<lambda>b. link_key b = link_key a) links = Some a"
proof
  assume "a \<in> set (first_links {} links)"
  then show "find (\<lambda>b. link_key b = link_key a) links = Some a" by (rule first_links_find)
next
  assume f: "find (\<lambda>b. link_key b = link_key a) links = Some a"
  then have "a \<in> set links" by (auto simp: find_Some_iff)
  from first_links_covers [OF this, of "{}"]
  obtain b where b: "b \<in> set (first_links {} links)" and k: "link_key b = link_key a" by auto
  from first_links_find [OF b] k f have "b = a" by simp
  with b show "a \<in> set (first_links {} links)" by simp
qed

lemma parse_synthese_keys:
  "map signal_key (parse_synthese soup) =
   map link_key (filter (\<lambda>a. emit a \<noteq> None) (first_links {} (filter is_candidate soup)))"
  by (simp add: parse_synthese_emit map_filter_keys)

lemma parse_synthese_member:
  "s \<in> set (parse_synthese soup) \<longleftrightarrow>
   (\<exists>a. find (\<lambda>b. link_key b = link_key a) (filter is_candidate soup) = Some a \<and> emit a = Some s)"
  by (auto simp: parse_synthese_emit set_map_filter_emit first_links_iff)



lemma number_token_float:
  assumes "number_token g"
  shows "\<exists>v. py_float (replace_comma g) = Some v"
proof -
  from assms obtain sg ds fr where
    g: "g = sg @ ds @ fr" and sg: "sg = [] \<or> sg = ''+'' \<or> sg = ''-''" and
    ds: "ds \<noteq> []" "list_all is_digit ds" and
    fr: "fr = [] \<or> (\<exists>sep fs. fr = sep # fs \<and> (sep = CHR ''.'' \<or> sep = CHR '','') \<and>
            fs \<noteq> [] \<and> list_all is_digit fs)"
    unfolding number_token_def by blast
  have keep: "replace_comma xs = xs" if "list_all is_digit xs" for xs
    using that by (induction xs) (auto simp: replace_comma_def is_digit_def)
  define fr' where "fr' = replace_comma fr"
  have fr': "fr' = [] \<or> (\<exists>fs. fr' = CHR ''.'' # fs \<and> fs \<noteq> [] \<and> list_all is_digit fs)"
    using fr keep by (auto simp: fr'_def replace_comma_def)
  have rg: "replace_comma g = sg @ ds @ fr'"
    using g sg keep [OF ds(2)] by (auto simp: replace_comma_def fr'_def)
  obtain d ds' where dsc: "ds = d # ds'" using ds(1) by (cases ds) auto
  with ds(2) have "is_digit d" by simp
  then have d: "d \<noteq> CHR ''+''" "d \<noteq> CHR ''-''" by (auto simp: is_digit_def)
  have nd: "fr' = [] \<or> \<not> is_digit (hd fr')"
    using fr' by (auto simp: is_digit_def)
  from takeWhile_run [OF ds(2) nd]
  have run: "takeWhile is_digit (ds @ fr') = ds" "dropWhile is_digit (ds @ fr') = fr'"
    by simp_all
  have "float_sign (sg @ ds @ fr') = (sg = ''-'', ds @ fr')"
    using sg
  proof (elim disjE)
    assume "sg = []"
    with dsc d show ?thesis by (simp add: float_sign_def)
  next
    assume "sg = ''+''"
    then show ?thesis by (simp add: float_sign_def)
  next
    assume "sg = ''-''"
    then show ?thesis by (simp add: float_sign_def)
  qed
  then obtain k where k: "float_sign (sg @ ds @ fr') = (k, ds @ fr')" by blast
  from fr' show ?thesis
  proof (elim disjE exE conjE)
    assume e: "fr' = []"
    with run have r: "takeWhile is_digit ds = ds" "dropWhile is_digit ds = []" by simp_all
    from k e have "float_sign (sg @ ds) = (k, ds)" by simp
    then show ?thesis
      by (simp add: py_float_def Let_def rg ds(1) e r)
  next
    fix fs assume e: "fr' = CHR ''.'' # fs" and fs: "fs \<noteq> []" "list_all is_digit fs"
    from run e have r: "takeWhile is_digit (ds @ CHR ''.'' # fs) = ds"
      "dropWhile is_digit (ds @ CHR ''.'' # fs) = CHR ''.'' # fs" by simp_all
    from k e have "float_sign (sg @ ds @ CHR ''.'' # fs) = (k, ds @ CHR ''.'' # fs)" by simp
    then show ?thesis
      by (simp add: py_float_def Let_def rg ds(1) e r fs)
  qed
qed

lemma re_search_skip:
  "(\<forall>c \<in> set pre. \<not> is_digit c \<and> c \<noteq> CHR ''+'' \<and> c \<noteq> CHR ''-'') \<Longrightarrow>
   re_search (pre @ s) = re_search s"
proof (induction pre)
  case Nil
  then show ?case by simp
next
  case (Cons c pre)
  then have "match_here (c # pre @ s) = None"
    by (simp add: match_here_def take_sign_def)
  with Cons show ?case by simp
qed

lemmas extract_eval = parse_synthese_def is_candidate_def link_code_def link_name_def
  link_key_def link_imgs_def text_search_area_def parse_potential_def parse_potential_with_def
  match_here_def take_sign_def take_fraction_def is_digit_def is_space_def strip_def upper_def
  upper_char_def last_segment_def ACTION_MAP_def py_float_def float_sign_def float_of_decimal_def replace_comma_def
  nat_of_digits_def digit_val_def row_link_def emit_def signal_key_def
  link_abc_def link_abc_again_def link_nop_def link_zzz_def link_xyz_def

lemma find_in_set: "find P xs = Some a \<Longrightarrow> a \<in> set xs"
  by (induction xs) (auto split: if_splits)

lemma example_parse: "parse_synthese example_soup = example_signals"
  by (simp add: example_soup_def example_signals_def extract_eval)

text \<open>
  C1 (amended). Every emitted signal has an action among BUY, SELL, KEEP and TAKE PROFIT;
  no two emitted signals share their (code, name); the signals are, in document order,
  what the candidate links that are the first with their (code, name) give, for those that
  give a signal. The code is the trimmed, upper-cased last path segment of the link
  target, and it is non-empty exactly when that segment has a character that is no white
  space.
\<close>

theorem parse_synthese_signals:
  "(\<forall>s \<in> set (parse_synthese soup). action s \<in> {''BUY'', ''SELL'', ''KEEP'', ''TAKE PROFIT''}) \<and>
   distinct (map signal_key (parse_synthese soup)) \<and>
   parse_synthese soup = List.map_filter emit (first_links {} (filter is_candidate soup)) \<and>
   map signal_key (parse_synthese soup) =
     map link_key (filter (\<lambda>a. emit a \<noteq> None) (first_links {} (filter is_candidate soup))) \<and>
   subseq (first_links {} (filter is_candidate soup)) (filter is_candidate soup) \<and>
   distinct (map link_key (first_links {} (filter is_candidate soup))) \<and>
   (\<forall>a \<in> set (filter is_candidate soup).
      (a \<in> set (first_links {} (filter is_candidate soup))) =
      (find (\<lambda>b. link_key b = link_key a) (filter is_candidate soup) = Some a)) \<and>
   subseq (map signal_key (parse_synthese soup)) (map link_key (filter is_candidate soup)) \<and>
   (\<forall>s \<in> set (parse_synthese soup).
      \<exists>a x. find (\<lambda>b. link_key b = signal_key s) (filter is_candidate soup) = Some a \<and>
        emit a = Some s \<and> a_href a = Some x \<and> prefix ''conseil/'' x \<and>
        code s = upper (strip (last_segment x)) \<and>
        (code s \<noteq> [] \<longleftrightarrow> (\<exists>c \<in> set (last_segment x). \<not> is_space c)))"
proof (intro conjI ballI)
  fix s assume "s \<in> set (parse_synthese soup)"
  then obtain a where "emit a = Some s" by (auto simp: parse_synthese_member)
  from emit_Some [OF this] have "find_action (link_imgs a) = Some (action s)" by simp
  from find_action_Some [OF this] ACTION_MAP_values
  show "action s \<in> {''BUY'', ''SELL'', ''KEEP'', ''TAKE PROFIT''}" by blast
next
  show "distinct (map signal_key (parse_synthese soup))"
    unfolding parse_synthese_keys
    using first_links_distinct [of "{}" "filter is_candidate soup"]
    by (simp add: distinct_map_filter)
next
  show "parse_synthese soup = List.map_filter emit (first_links {} (filter is_candidate soup))"
    by (rule parse_synthese_emit)
next
  show "map signal_key (parse_synthese soup) =
     map link_key (filter (\<lambda>a. emit a \<noteq> None) (first_links {} (filter is_candidate soup)))"
    by (rule parse_synthese_keys)
next
  show "subseq (first_links {} (filter is_candidate soup)) (filter is_candidate soup)"
    by (rule first_links_subseq)
next
  show "distinct (map link_key (first_links {} (filter is_candidate soup)))"
    by (rule first_links_distinct)
next
  fix a assume "a \<in> set (filter is_candidate soup)"
  show "(a \<in> set (first_links {} (filter is_candidate soup))) =
      (find (\<lambda>b. link_key b = link_key a) (filter is_candidate soup) = Some a)"
    by (rule first_links_iff)
next
  have "subseq (filter (\<lambda>a. emit a \<noteq> None) (first_links {} (filter is_candidate soup)))
      (filter is_candidate soup)"
    using first_links_subseq [of "{}" "filter is_candidate soup"]
    by (meson subseq_filter_left subseq_order.trans)
  then show "subseq (map signal_key (parse_synthese soup)) (map link_key (filter is_candidate soup))"
    unfolding parse_synthese_keys by (rule subseq_map)
next
  fix s assume "s \<in> set (parse_synthese soup)"
  then obtain a where f: "find (\<lambda>b. link_key b = link_key a) (filter is_candidate soup) = Some a"
    and e: "emit a = Some s" by (auto simp: parse_synthese_member)
  from emit_Some [OF e] have k: "signal_key s = link_key a" and c: "code s = link_code a"
    by simp_all
  from f have "a \<in> set (filter is_candidate soup)" by (rule find_in_set)
  then have "is_candidate a" by simp
  then obtain x where x: "a_href a = Some x" "prefix ''conseil/'' x"
    by (auto simp: is_candidate_def split: option.splits)
  from link_code_nonempty [OF x(1)] c x(1)
  have "code s = upper (strip (last_segment x))"
    "code s \<noteq> [] \<longleftrightarrow> (\<exists>c \<in> set (last_segment x). \<not> is_space c)"
    by (simp_all add: link_code_def)
  with f e k x
  show "\<exists>a x. find (\<lambda>b. link_key b = signal_key s) (filter is_candidate soup) = Some a \<and>
        emit a = Some s \<and> a_href a = Some x \<and> prefix ''conseil/'' x \<and>
        code s = upper (strip (last_segment x)) \<and>
        (code s \<noteq> [] \<longleftrightarrow> (\<exists>c \<in> set (last_segment x). \<not> is_space c))"
    by auto
qed

theorem parse_synthese_signals_witness:
  "parse_synthese example_soup = example_signals \<and>
   set example_signals \<noteq> {} \<and>
   action (example_signals ! 0) = ''BUY'' \<and> action (example_signals ! 1) = ''KEEP'' \<and>
   distinct (map signal_key example_signals) \<and>
   map signal_key example_signals = [(''ABC'', ''Abc''), (''XYZ'', ''Xyz'')] \<and>
   map link_key (filter is_candidate example_soup) =
     [(''ABC'', ''Abc''), (''ABC'', ''Abc''), (''NOP'', ''Nop''), (''XYZ'', ''Xyz'')] \<and>
   first_links {} (filter is_candidate example_soup) = [link_abc, link_nop, link_xyz] \<and>
   List.map_filter emit [link_abc, link_nop, link_xyz] = example_signals"
proof -
  have c: "map link_key (filter is_candidate example_soup) =
     [(''ABC'', ''Abc''), (''ABC'', ''Abc''), (''NOP'', ''Nop''), (''XYZ'', ''Xyz'')]"
    by (simp add: example_soup_def extract_eval)
  have f: "filter is_candidate example_soup = [link_abc, link_abc_again, link_nop, link_xyz]"
    by (simp add: example_soup_def extract_eval)
  have k: "link_key link_abc = (''ABC'', ''Abc'')" "link_key link_abc_again = (''ABC'', ''Abc'')"
    "link_key link_nop = (''NOP'', ''Nop'')" "link_key link_xyz = (''XYZ'', ''Xyz'')"
    by (simp_all add: extract_eval)
  have fl: "first_links {} (filter is_candidate example_soup) = [link_abc, link_nop, link_xyz]"
    by (simp add: f k)
  from parse_synthese_signals [of example_soup]
  have "parse_synthese example_soup =
      List.map_filter emit (first_links {} (filter is_candidate example_soup))" by blast
  then have m: "List.map_filter emit [link_abc, link_nop, link_xyz] = example_signals"
    by (simp only: fl example_parse)
  from parse_synthese_signals [of example_soup]
  have "distinct (map signal_key (parse_synthese example_soup))" by blast
  then have d: "distinct (map signal_key example_signals)" by (simp only: example_parse)
  have a: "set example_signals \<noteq> {}" "action (example_signals ! 0) = ''BUY''"
    "action (example_signals ! 1) = ''KEEP''"
    "map signal_key example_signals = [(''ABC'', ''Abc''), (''XYZ'', ''Xyz'')]"
    by (simp_all add: example_signals_def signal_key_def)
  from example_parse a d c fl m show ?thesis by blast
qed

text \<open>
  The claim as stated fails: a link whose target ends in a slash gives a signal with an
  empty code.
\<close>

theorem parse_synthese_empty_code:
  "parse_synthese [row_link ''conseil/'' ''Abc'' [Some ''/img/f_1b.png''] [''Abc'', ''5%'']] =
     [\<lparr>code = [], name = ''Abc'', action = ''BUY'', potential = Finite 5\<rparr>]"
  by (simp add: extract_eval)



lemma example_potentials:
  "parse_potential ''Abc 12,5%'' = Finite (25 / 2)"
  "re_search ''Abc 12,5%'' = Some ''12,5''"
  "parse_potential ''no figure'' = Finite 0"
  by (simp_all add: extract_eval)

lemma map_filter_potentials:
  "map potential (List.map_filter emit xs) =
   map (\<lambda>a. parse_potential (text_search_area a)) (filter (\<lambda>a. emit a \<noteq> None) xs)"
proof (induction xs)
  case Nil
  then show ?case by (simp add: List.map_filter_simps)
next
  case (Cons a xs)
  then show ?case
    by (cases "emit a") (auto simp: List.map_filter_simps dest: emit_Some)
qed

text \<open>
  C3. Potential parsing is total. When no position of the text search area starts with
  a number token, white space and a percent sign, the potential is 0. Otherwise the token
  of the leftmost such position is taken, its comma replaced by a point, and its value is
  the potential; \<open>float\<close> never fails on it, and if it did the potential would be 0. After
  text without digit and sign, \<open>12,5%\<close> gives 12.5 and \<open>-3.2 %\<close> gives -3.2. Every emitted
  signal carries the potential of the text search area of its own link, the first
  candidate with its (code, name).
\<close>

theorem potential_parsing:
  "((\<forall>suf \<in> set (suffixes w). \<forall>g. \<not> token_at suf g) \<longrightarrow> parse_potential_with fl w = Finite 0) \<and>
   (suffix suf w \<and> token_at suf g \<and>
    (\<forall>suf' \<in> set (suffixes w). length suf < length suf' \<longrightarrow> (\<forall>g'. \<not> token_at suf' g')) \<longrightarrow>
      re_search w = Some g \<and>
      parse_potential_with fl w = (case fl (replace_comma g) of Some v \<Rightarrow> v | None \<Rightarrow> Finite 0) \<and>
      (\<exists>v. py_float (replace_comma g) = Some v \<and> parse_potential w = v)) \<and>
   (re_search w = Some g \<and> fl (replace_comma g) = None \<longrightarrow> parse_potential_with fl w = Finite 0) \<and>
   ((\<forall>c \<in> set pre. \<not> is_digit c \<and> c \<noteq> CHR ''+'' \<and> c \<noteq> CHR ''-'') \<longrightarrow>
      parse_potential (pre @ ''12,5%'' @ post) = Finite (25 / 2) \<and>
      parse_potential (pre @ ''-3.2 %'' @ post) = Finite (- (16 / 5))) \<and>
   (\<forall>s \<in> set (parse_synthese soup).
      \<exists>a. find (\<lambda>b. link_key b = signal_key s) (filter is_candidate soup) = Some a \<and>
        emit a = Some s \<and> potential s = parse_potential (text_search_area a)) \<and>
   map potential (parse_synthese soup) =
     map (\<lambda>a. parse_potential (text_search_area a))
       (filter (\<lambda>a. emit a \<noteq> None) (first_links {} (filter is_candidate soup)))"
proof (intro conjI impI ballI)
  assume "\<forall>suf \<in> set (suffixes w). \<forall>g. \<not> token_at suf g"
  then have "\<forall>suf. suffix suf w \<longrightarrow> match_here suf = None"
    by (metis in_set_suffixes match_here_iff not_Some_eq)
  then have "re_search w = None" by (simp add: re_search_None)
  then show "parse_potential_with fl w = Finite 0" by (simp add: parse_potential_with_def)
next
  assume a: "suffix suf w \<and> token_at suf g \<and>
    (\<forall>suf' \<in> set (suffixes w). length suf < length suf' \<longrightarrow> (\<forall>g'. \<not> token_at suf' g'))"
  then have "\<forall>suf'. suffix suf' w \<longrightarrow> length suf < length suf' \<longrightarrow> match_here suf' = None"
    by (metis in_set_suffixes match_here_iff not_Some_eq)
  moreover from a have "suffix suf w" "match_here suf = Some g"
    by (simp_all add: match_here_iff)
  ultimately have "\<exists>suf. suffix suf w \<and> match_here suf = Some g \<and>
    (\<forall>suf'. suffix suf' w \<longrightarrow> length suf < length suf' \<longrightarrow> match_here suf' = None)"
    by blast
  then have r: "re_search w = Some g" by (simp only: re_search_Some)
  from a have "number_token g" by (simp add: token_at_def)
  from number_token_float [OF this] obtain v where v: "py_float (replace_comma g) = Some v"
    by blast
  show "re_search w = Some g" by (rule r)
  show "parse_potential_with fl w = (case fl (replace_comma g) of Some v \<Rightarrow> v | None \<Rightarrow> Finite 0)"
    by (simp add: parse_potential_with_def r)
  show "\<exists>v. py_float (replace_comma g) = Some v \<and> parse_potential w = v"
    using v by (simp add: parse_potential_def parse_potential_with_def r)
next
  assume "re_search w = Some g \<and> fl (replace_comma g) = None"
  then show "parse_potential_with fl w = Finite 0" by (simp add: parse_potential_with_def)
next
  assume p: "\<forall>c \<in> set pre. \<not> is_digit c \<and> c \<noteq> CHR ''+'' \<and> c \<noteq> CHR ''-''"
  have "match_here (''12,5%'' @ post) = Some ''12,5''"
    by (simp add: match_here_def take_sign_def take_fraction_def is_digit_def is_space_def)
  then have "re_search (pre @ ''12,5%'' @ post) = Some ''12,5''"
    using re_search_skip [OF p, of "''12,5%'' @ post"] by simp
  then show "parse_potential (pre @ ''12,5%'' @ post) = Finite (25 / 2)"
    by (simp add: parse_potential_def parse_potential_with_def py_float_def float_sign_def float_of_decimal_def
        replace_comma_def is_digit_def nat_of_digits_def digit_val_def)
next
  assume p: "\<forall>c \<in> set pre. \<not> is_digit c \<and> c \<noteq> CHR ''+'' \<and> c \<noteq> CHR ''-''"
  have "match_here (''-3.2 %'' @ post) = Some ''-3.2''"
    by (simp add: match_here_def take_sign_def take_fraction_def is_digit_def is_space_def)
  then have "re_search (pre @ ''-3.2 %'' @ post) = Some ''-3.2''"
    using re_search_skip [OF p, of "''-3.2 %'' @ post"] by simp
  then show "parse_potential (pre @ ''-3.2 %'' @ post) = Finite (- (16 / 5))"
    by (simp add: parse_potential_def parse_potential_with_def py_float_def float_sign_def float_of_decimal_def
        replace_comma_def is_digit_def nat_of_digits_def digit_val_def)
next
  fix s assume "s \<in> set (parse_synthese soup)"
  then obtain a where f: "find (\<lambda>b. link_key b = link_key a) (filter is_candidate soup) = Some a"
    and e: "emit a = Some s" by (auto simp: parse_synthese_member)
  from emit_Some [OF e] have "signal_key s = link_key a"
    "potential s = parse_potential (text_search_area a)" by simp_all
  with f e
  show "\<exists>a. find (\<lambda>b. link_key b = signal_key s) (filter is_candidate soup) = Some a \<and>
        emit a = Some s \<and> potential s = parse_potential (text_search_area a)"
    by auto
next
  show "map potential (parse_synthese soup) =
     map (\<lambda>a. parse_potential (text_search_area a))
       (filter (\<lambda>a. emit a \<noteq> None) (first_links {} (filter is_candidate soup)))"
    by (simp add: parse_synthese_emit map_filter_potentials)
qed

theorem potential_parsing_witness:
  "parse_potential_with py_float ''no figure'' = Finite 0 \<and>
   suffix ''12,5% 1%'' ''Abc 12,5% 1%'' \<and> match_here ''12,5% 1%'' = Some ''12,5'' \<and>
   re_search ''Abc 12,5% 1%'' = Some ''12,5'' \<and>
   py_float (replace_comma ''12,5'') = Some (Finite (25 / 2)) \<and>
   parse_potential ''Abc 12,5% 1%'' = Finite (25 / 2) \<and>
   parse_potential_with (\<lambda>s. None) ''Abc 12,5% 1%'' = Finite 0 \<and>
   parse_potential (''Abc '' @ ''12,5%'' @ '' 1%'') = Finite (25 / 2) \<and>
   parse_potential (''Abc '' @ ''-3.2 %'' @ '' 1%'') = Finite (- (16 / 5)) \<and>
   parse_synthese example_soup = example_signals \<and>
   map potential example_signals = [Finite (25 / 2), Finite (- (16 / 5))]"
proof -
  let ?w = "''Abc 12,5% 1%''"
  have none: "\<forall>suf \<in> set (suffixes ''no figure''). \<forall>g. \<not> token_at suf g"
    unfolding match_here_iff [symmetric]
    by (simp add: match_here_def take_sign_def take_fraction_def is_digit_def is_space_def)
  have suf: "suffix ''12,5% 1%'' ?w" by (simp add: suffix_def)
  have tok: "token_at ''12,5% 1%'' ''12,5''"
    unfolding match_here_iff [symmetric]
    by (simp add: match_here_def take_sign_def take_fraction_def is_digit_def is_space_def)
  have first: "\<forall>suf' \<in> set (suffixes ?w). length ''12,5% 1%'' < length suf' \<longrightarrow>
      (\<forall>g'. \<not> token_at suf' g')"
    unfolding match_here_iff [symmetric]
    by (simp add: match_here_def take_sign_def take_fraction_def is_digit_def is_space_def)
  have pre: "\<forall>c \<in> set ''Abc ''. \<not> is_digit c \<and> c \<noteq> CHR ''+'' \<and> c \<noteq> CHR ''-''"
    by (simp add: is_digit_def)
  have fl: "py_float (replace_comma ''12,5'') = Some (Finite (25 / 2))"
    by (simp add: extract_eval)
  note t1 = potential_parsing [of "''no figure''" py_float]
  note t2 = potential_parsing [of ?w py_float "''12,5% 1%''" "''12,5''" "''Abc ''" "'' 1%''" example_soup]
  note t3 = potential_parsing [of ?w "\<lambda>s. None" "''12,5% 1%''" "''12,5''"]
  have a: "parse_potential_with py_float ''no figure'' = Finite 0" using t1 none by blast
  have b: "re_search ?w = Some ''12,5'' \<and> (\<exists>v. py_float (replace_comma ''12,5'') = Some v \<and>
      parse_potential ?w = v)"
    using t2 suf tok first by blast
  then have b': "parse_potential ?w = Finite (25 / 2)" using fl by simp
  have c: "parse_potential_with (\<lambda>s. None) ?w = Finite 0" using t3 b by blast
  have d: "parse_potential (''Abc '' @ ''12,5%'' @ '' 1%'') = Finite (25 / 2) \<and>
      parse_potential (''Abc '' @ ''-3.2 %'' @ '' 1%'') = Finite (- (16 / 5))"
    using t2 pre by blast
  have m: "match_here ''12,5% 1%'' = Some ''12,5''" using tok by (simp add: match_here_iff)
  have p: "map potential example_signals = [Finite (25 / 2), Finite (- (16 / 5))]"
    by (simp add: example_signals_def)
  from a b b' c d m p suf fl example_parse show ?thesis by blast
qed

section \<open>Properties of the listing\<close>

declare show_nat.simps [simp del]

lemma digit_char_cases:
  assumes "d < 10"
  shows "is_digit (digit_char d) \<and> digit_val (digit_char d) = d"
proof -
  from assms have "d = 0 \<or> d = 1 \<or> d = 2 \<or> d = 3 \<or> d = 4 \<or> d = 5 \<or> d = 6 \<or> d = 7 \<or>
      d = 8 \<or> d = 9" by arith
  then show ?thesis
    by (elim disjE) (simp_all add: digit_char_def is_digit_def digit_val_def)
qed

lemma nat_of_digits_snoc: "nat_of_digits (ds @ [c]) = 10 * nat_of_digits ds + digit_val c"
  by (simp add: nat_of_digits_def)

lemma show_nat_digits: "show_nat n \<noteq> [] \<and> list_all is_digit (show_nat n) \<and> nat_of_digits (show_nat n) = n"
proof (induction n rule: show_nat.induct)
  case (1 n)
  show ?case
  proof (cases "n < 10")
    case True
    with digit_char_cases [of n] show ?thesis
      by (simp add: show_nat.simps [of n] nat_of_digits_def)
  next
    case False
    have "n mod 10 < 10" by simp
    from digit_char_cases [OF this] "1.IH" [OF False] False show ?thesis
      by (simp add: show_nat.simps [of n] nat_of_digits_snoc)
  qed
qed

lemma round_half_even_near: "\<bar>of_int (round_half_even y) - y\<bar> \<le> 1 / 2"
proof -
  have "of_int \<lfloor>y\<rfloor> \<le> y" "y < of_int \<lfloor>y\<rfloor> + 1" by linarith+
  then show ?thesis
    by (auto simp: round_half_even_def Let_def abs_le_iff)
qed

lemma round_half_even_nonneg: "0 \<le> y \<Longrightarrow> 0 \<le> round_half_even y"
  by (auto simp: round_half_even_def Let_def)

lemma fmt_finite_shape:
  "\<exists>ip d1 d2. fmt_finite x = (if x < 0 then ''-'' else []) @ ip @ ''.'' @ [d1, d2] \<and>
     ip \<noteq> [] \<and> list_all is_digit (ip @ [d1, d2]) \<and>
     \<bar>of_nat (nat_of_digits (ip @ [d1, d2])) / 100 - \<bar>x\<bar>\<bar> \<le> 1 / 200"
proof -
  define n where "n = nat (round_half_even (\<bar>x\<bar> * 100))"
  define ip where "ip = show_nat (n div 100)"
  define d1 where "d1 = digit_char (n mod 100 div 10)"
  define d2 where "d2 = digit_char (n mod 10)"
  have f: "fmt_finite x = (if x < 0 then ''-'' else []) @ ip @ ''.'' @ [d1, d2]"
    by (simp add: fmt_finite_def Let_def n_def ip_def d1_def d2_def)
  have ip: "ip \<noteq> []" "list_all is_digit ip" "nat_of_digits ip = n div 100"
    using show_nat_digits [of "n div 100"] by (simp_all add: ip_def)
  have "n mod 100 div 10 < 10" by arith
  from digit_char_cases [OF this]
  have d1: "is_digit d1" "digit_val d1 = n mod 100 div 10" by (simp_all add: d1_def)
  have "n mod 10 < 10" by arith
  from digit_char_cases [OF this]
  have d2: "is_digit d2" "digit_val d2 = n mod 10" by (simp_all add: d2_def)
  have "nat_of_digits (ip @ [d1, d2]) = 10 * (10 * (n div 100) + n mod 100 div 10) + n mod 10"
    using nat_of_digits_snoc [of "ip @ [d1]" d2] nat_of_digits_snoc [of ip d1] ip(3) d1(2) d2(2)
    by simp
  also have "\<dots> = n"
  proof -
    have a: "n mod 100 mod 10 = n mod 10" by (simp add: mod_mod_cancel)
    have b: "10 * (n mod 100 div 10) + n mod 100 mod 10 = n mod 100" by simp
    have c: "100 * (n div 100) + n mod 100 = n" by simp
    have "10 * (10 * (n div 100) + n mod 100 div 10) + n mod 10 =
        100 * (n div 100) + (10 * (n mod 100 div 10) + n mod 100 mod 10)"
      unfolding a by (simp only: distrib_left mult.assoc [symmetric] add.assoc)
    also have "\<dots> = 100 * (n div 100) + n mod 100" unfolding b ..
    also have "\<dots> = n" by (rule c)
    finally show ?thesis .
  qed
  finally have v: "nat_of_digits (ip @ [d1, d2]) = n" .
  have "0 \<le> round_half_even (\<bar>x\<bar> * 100)" by (rule round_half_even_nonneg) simp
  then have "(of_nat n :: rat) = of_int (round_half_even (\<bar>x\<bar> * 100))"
    by (simp add: n_def)
  with round_half_even_near [of "\<bar>x\<bar> * 100"]
  have "\<bar>of_nat n - \<bar>x\<bar> * 100\<bar> \<le> 1 / 2" by simp
  then have "\<bar>of_nat n / 100 - \<bar>x\<bar>\<bar> \<le> 1 / 200"
    by (simp add: abs_le_iff field_simps)
  with f ip d1 d2 v show ?thesis by auto
qed

lemma desc_rank_le: "desc_rank a \<le> desc_rank b \<longleftrightarrow> float_rank b \<le> float_rank a"
  by (cases "float_rank a"; cases "float_rank b") (auto simp: desc_rank_def)

lemma desc_rank_eq: "desc_rank a = desc_rank b \<longleftrightarrow> float_rank a = float_rank b"
  by (cases "float_rank a"; cases "float_rank b") (auto simp: desc_rank_def)

lemma sorted_by_potential_desc:
  "sorted_wrt (\<lambda>a b. float_rank (potential b) \<le> float_rank (potential a))
     (sorted_by_potential items)"
proof -
  have "sorted (map (\<lambda>it. desc_rank (potential it)) (sorted_by_potential items))"
    by (simp add: sorted_by_potential_def)
  then show ?thesis by (simp add: sorted_map desc_rank_le)
qed

lemma sorted_by_potential_stable:
  "filter (\<lambda>it. float_rank (potential it) = float_rank p) (sorted_by_potential items) =
   filter (\<lambda>it. float_rank (potential it) = float_rank p) items"
proof -
  have "filter (\<lambda>it. desc_rank (potential it) = desc_rank p)
      (sort_key (\<lambda>it. desc_rank (potential it)) items) =
    filter (\<lambda>it. desc_rank (potential it) = desc_rank p) items"
    by (rule sort_key_stable)
  then show ?thesis by (simp add: sorted_by_potential_def desc_rank_eq)
qed

lemma round_half_even_int: "round_half_even (of_int k) = k"
  by (simp add: round_half_even_def)

lemma fmt_finite_examples:
  "fmt_finite 10 = ''10.00''" "fmt_finite 5 = ''5.00''" "fmt_finite (- 2) = ''-2.00''"
  "fmt_finite 0 = ''0.00''"
proof -
  have r: "round_half_even 1000 = 1000" "round_half_even 500 = 500" "round_half_even 200 = 200"
    "round_half_even 0 = 0"
    using round_half_even_int [of 1000] round_half_even_int [of 500] round_half_even_int [of 200]
      round_half_even_int [of 0]
    by simp_all
  have s: "show_nat 10 = ''10''" "show_nat 5 = ''5''" "show_nat 2 = ''2''" "show_nat 0 = ''0''"
    by (simp_all add: show_nat.simps digit_char_def)
  show "fmt_finite 10 = ''10.00''" by (simp add: fmt_finite_def r s digit_char_def)
  show "fmt_finite 5 = ''5.00''" by (simp add: fmt_finite_def r s digit_char_def)
  show "fmt_finite (- 2) = ''-2.00''" by (simp add: fmt_finite_def r s digit_char_def)
  show "fmt_finite 0 = ''0.00''" by (simp add: fmt_finite_def r s digit_char_def)
qed

lemma example_bucket_sorted:
  "sorted_by_potential example_bucket = [example_bucket ! 2, example_bucket ! 0, example_bucket ! 1]"
  by (simp add: sorted_by_potential_def example_bucket_def desc_rank_def float_rank_def)

lemma odd_bucket_sorted:
  "sorted_by_potential odd_bucket = [odd_bucket ! 2, odd_bucket ! 0, odd_bucket ! 1]"
  by (simp add: sorted_by_potential_def odd_bucket_def desc_rank_def float_rank_def)

lemma float_parse_extremes:
  "parse_potential ''-0,00%'' = NegZero"
  "parse_potential ''-0%'' = NegZero"
  by (simp_all add: extract_eval)

text \<open>A figure of digits that is large enough parses to the positive infinity.\<close>

lemma parse_potential_overflow:
  assumes "ds \<noteq> []" "list_all is_digit ds"
    and "2 ^ 1024 - 2 ^ 970 \<le> (of_nat (nat_of_digits ds) :: rat)"
  shows "parse_potential (ds @ ''%'') = PosInf"
proof -
  obtain d ds' where dsc: "ds = d # ds'" using assms(1) by (cases ds) auto
  with assms(2) have "is_digit d" by simp
  then have d: "d \<noteq> CHR ''+''" "d \<noteq> CHR ''-''" by (auto simp: is_digit_def)
  have "number_token ds"
    unfolding number_token_def using assms(1,2) by (intro exI [of _ "[]"] exI [of _ ds]) simp
  then have "token_at (ds @ ''%'') ds"
    unfolding token_at_def by (auto intro: exI [of _ "[]"])
  then have "match_here (ds @ ''%'') = Some ds" by (rule token_match_here)
  then have r: "re_search (ds @ ''%'') = Some ds" by (simp add: dsc)
  have k: "replace_comma ds = ds"
    using assms(2) by (induction ds) (auto simp: replace_comma_def is_digit_def)
  have s: "float_sign ds = (False, ds)" using dsc d by (simp add: float_sign_def)
  from takeWhile_run [OF assms(2), of "[]"]
  have t: "takeWhile is_digit ds = ds" "dropWhile is_digit ds = []" by simp_all
  have "py_float ds = Some (float_of_decimal False (of_nat (nat_of_digits ds)))"
    by (simp add: py_float_def s t assms(1))
  also have "float_of_decimal False (of_nat (nat_of_digits ds)) = PosInf"
    using assms(3) by (simp add: float_of_decimal_def)
  finally show ?thesis
    by (simp add: parse_potential_def parse_potential_with_def r k)
qed

text \<open>
  C4 (amended). The listing has one entry per signal; the entries are the signals sorted
  by descending potential, signals of equal potential in their original order; an entry
  reads name, code in parentheses, a dash, the signed potential and a percent sign. A
  finite potential is written with a plus sign when positive, a minus sign when negative
  and no sign when zero, and its magnitude to two decimals; the negative zero is written
  -0.00, the infinities +inf and -inf. The potentials 5.0, -2.0, 10.0 give the entries
  +10.00%, +5.00%, -2.00% in this order.
\<close>

theorem format_items_sorted_listing:
  "format_items_sorted items = join [CHR 0x0A] (map format_line (sorted_by_potential items)) \<and>
   length (format_lines items) = length items \<and>
   mset (sorted_by_potential items) = mset items \<and>
   sorted_wrt (\<lambda>a b. float_rank (potential b) \<le> float_rank (potential a))
     (sorted_by_potential items) \<and>
   (\<forall>p. filter (\<lambda>it. float_rank (potential it) = float_rank p) (sorted_by_potential items) =
        filter (\<lambda>it. float_rank (potential it) = float_rank p) items) \<and>
   (potential it = Finite x \<longrightarrow>
      (\<exists>ip d1 d2.
         format_line it =
           name it @ '' ('' @ code it @ '') '' @ em_dash @ '' '' @
           (if 0 < x then ''+'' else if x < 0 then ''-'' else []) @
           ip @ ''.'' @ [d1, d2] @ ''%'' \<and>
         ip \<noteq> [] \<and> list_all is_digit (ip @ [d1, d2]) \<and>
         \<bar>of_nat (nat_of_digits (ip @ [d1, d2])) / 100 - \<bar>x\<bar>\<bar> \<le> 1 / 200)) \<and>
   (potential it = NegZero \<longrightarrow>
      format_line it = name it @ '' ('' @ code it @ '') '' @ em_dash @ '' -0.00%'') \<and>
   (potential it = PosInf \<longrightarrow>
      format_line it = name it @ '' ('' @ code it @ '') '' @ em_dash @ '' +inf%'') \<and>
   (potential it = NegInf \<longrightarrow>
      format_line it = name it @ '' ('' @ code it @ '') '' @ em_dash @ '' -inf%'') \<and>
   format_lines example_bucket =
     [''Ccc (CCC) '' @ em_dash @ '' +10.00%'', ''Aaa (AAA) '' @ em_dash @ '' +5.00%'',
      ''Bbb (BBB) '' @ em_dash @ '' -2.00%'']"
proof (intro conjI allI impI)
  show "format_items_sorted items = join [CHR 0x0A] (map format_line (sorted_by_potential items))"
    by (simp add: format_items_sorted_def format_lines_def)
  show "length (format_lines items) = length items"
    by (simp add: format_lines_def sorted_by_potential_def)
  show "mset (sorted_by_potential items) = mset items"
    by (simp add: sorted_by_potential_def)
  show "sorted_wrt (\<lambda>a b. float_rank (potential b) \<le> float_rank (potential a))
     (sorted_by_potential items)"
    by (rule sorted_by_potential_desc)
  show "filter (\<lambda>it. float_rank (potential it) = float_rank p) (sorted_by_potential items) =
        filter (\<lambda>it. float_rank (potential it) = float_rank p) items" for p
    by (rule sorted_by_potential_stable)
  show "format_lines example_bucket =
     [''Ccc (CCC) '' @ em_dash @ '' +10.00%'', ''Aaa (AAA) '' @ em_dash @ '' +5.00%'',
      ''Bbb (BBB) '' @ em_dash @ '' -2.00%'']"
    by (simp add: format_lines_def example_bucket_sorted)
      (simp add: example_bucket_def format_line_def fmt_2f_def fmt_finite_examples
        float_less_def float_rank_def)
next
  assume p: "potential it = Finite x"
  from fmt_finite_shape [of x] obtain ip d1 d2 where
    f: "fmt_finite x = (if x < 0 then ''-'' else []) @ ip @ ''.'' @ [d1, d2]"
    and r: "ip \<noteq> []" "list_all is_digit (ip @ [d1, d2])"
      "\<bar>of_nat (nat_of_digits (ip @ [d1, d2])) / 100 - \<bar>x\<bar>\<bar> \<le> 1 / 200"
    by blast
  have "format_line it =
        name it @ '' ('' @ code it @ '') '' @ em_dash @ '' '' @
        (if 0 < x then ''+'' else if x < 0 then ''-'' else []) @
        ip @ ''.'' @ [d1, d2] @ ''%''"
    by (simp add: format_line_def Let_def p fmt_2f_def f float_less_def float_rank_def)
  with r show "\<exists>ip d1 d2.
         format_line it =
           name it @ '' ('' @ code it @ '') '' @ em_dash @ '' '' @
           (if 0 < x then ''+'' else if x < 0 then ''-'' else []) @
           ip @ ''.'' @ [d1, d2] @ ''%'' \<and>
         ip \<noteq> [] \<and> list_all is_digit (ip @ [d1, d2]) \<and>
         \<bar>of_nat (nat_of_digits (ip @ [d1, d2])) / 100 - \<bar>x\<bar>\<bar> \<le> 1 / 200"
    by blast
next
  assume "potential it = NegZero"
  then show "format_line it = name it @ '' ('' @ code it @ '') '' @ em_dash @ '' -0.00%''"
    by (simp add: format_line_def Let_def fmt_2f_def float_less_def float_rank_def)
next
  assume "potential it = PosInf"
  then show "format_line it = name it @ '' ('' @ code it @ '') '' @ em_dash @ '' +inf%''"
    by (simp add: format_line_def Let_def fmt_2f_def float_less_def float_rank_def)
next
  assume "potential it = NegInf"
  then show "format_line it = name it @ '' ('' @ code it @ '') '' @ em_dash @ '' -inf%''"
    by (simp add: format_line_def Let_def fmt_2f_def float_less_def float_rank_def)
qed

theorem format_items_sorted_listing_witness:
  "format_lines odd_bucket =
     [''Big (BIG) '' @ em_dash @ '' +inf%'', ''Nz (NZ) '' @ em_dash @ '' -0.00%'',
      ''Pz (PZ) '' @ em_dash @ '' 0.00%''] \<and>
   potential (odd_bucket ! 0) = NegZero \<and> potential (odd_bucket ! 1) = Finite 0 \<and>
   potential (odd_bucket ! 2) = PosInf \<and>
   format_line (odd_bucket ! 0) = ''Nz (NZ) '' @ em_dash @ '' -0.00%'' \<and>
   format_line (odd_bucket ! 2) = ''Big (BIG) '' @ em_dash @ '' +inf%'' \<and>
   format_line \<lparr>code = ''LOW'', name = ''Low'', action = ''SELL'', potential = NegInf\<rparr> =
     ''Low (LOW) '' @ em_dash @ '' -inf%'' \<and>
   format_line (odd_bucket ! 1) = ''Pz (PZ) '' @ em_dash @ '' 0.00%''"
proof -
  have p: "potential (odd_bucket ! 0) = NegZero" "potential (odd_bucket ! 1) = Finite 0"
    "potential (odd_bucket ! 2) = PosInf"
    "name (odd_bucket ! 0) = ''Nz''" "code (odd_bucket ! 0) = ''NZ''"
    "name (odd_bucket ! 2) = ''Big''" "code (odd_bucket ! 2) = ''BIG''"
    by (simp_all add: odd_bucket_def)
  from format_items_sorted_listing [of _ "odd_bucket ! 0"] p
  have a: "format_line (odd_bucket ! 0) = ''Nz (NZ) '' @ em_dash @ '' -0.00%''" by simp
  from format_items_sorted_listing [of _ "odd_bucket ! 2"] p
  have b: "format_line (odd_bucket ! 2) = ''Big (BIG) '' @ em_dash @ '' +inf%''" by simp
  from format_items_sorted_listing
    [of _ "\<lparr>code = ''LOW'', name = ''Low'', action = ''SELL'', potential = NegInf\<rparr>"]
  have c: "format_line \<lparr>code = ''LOW'', name = ''Low'', action = ''SELL'', potential = NegInf\<rparr> =
     ''Low (LOW) '' @ em_dash @ '' -inf%''" by simp
  have d: "format_line (odd_bucket ! 1) = ''Pz (PZ) '' @ em_dash @ '' 0.00%''"
    by (simp add: odd_bucket_def format_line_def fmt_2f_def fmt_finite_examples float_less_def
        float_rank_def)
  have "format_lines odd_bucket =
      [format_line (odd_bucket ! 2), format_line (odd_bucket ! 0), format_line (odd_bucket ! 1)]"
    by (simp add: format_lines_def odd_bucket_sorted)
  with a b c d p(1-3) show ?thesis by simp
qed

text \<open>
  The claim as stated fails: the figure -0,00% parses to the negative zero, a zero that
  is written with a sign; an infinite potential is written without decimals.
\<close>

theorem format_negative_zero:
  "parse_potential ''-0,00%'' = NegZero \<and>
   \<not> float_less NegZero (Finite 0) \<and> \<not> float_less (Finite 0) NegZero \<and>
   format_line \<lparr>code = ''NZ'', name = ''Nz'', action = ''SELL'', potential = NegZero\<rparr> =
     ''Nz (NZ) '' @ em_dash @ '' -0.00%'' \<and>
   format_line \<lparr>code = ''BIG'', name = ''Big'', action = ''SELL'', potential = PosInf\<rparr> =
     ''Big (BIG) '' @ em_dash @ '' +inf%''"
  by (simp add: float_parse_extremes format_line_def fmt_2f_def float_less_def float_rank_def)

section \<open>Properties of the cache\<close>

lemma refresh_success:
  "refresh now (Inr soup) c =
     (Inr (parse_synthese soup),
      c\<lparr>data := Some (parse_synthese soup), ts := now, fetch_calls := fetch_calls c + 1\<rparr>)"
  by (simp add: refresh_def Let_def)

lemma usable_Some: "usable c = Some items \<longleftrightarrow> data c = Some items \<and> items \<noteq> []"
  by (auto simp: usable_def split: option.splits)

lemma usable_None: "usable c = None \<longleftrightarrow> data c = None \<or> data c = Some []"
  by (auto simp: usable_def split: option.splits)

lemma gets_fresh:
  "data c = Some items \<Longrightarrow> items \<noteq> [] \<Longrightarrow>
   \<forall>call \<in> set calls. fst call - ts c < of_int ttl \<Longrightarrow>
   gets ttl calls c = (replicate (length calls) (Inr items), c)"
proof (induction calls)
  case Nil
  then show ?case by simp
next
  case (Cons call calls)
  obtain now page where call: "call = (now, page)" by (cases call)
  from Cons.prems have u: "usable c = Some items" by (simp add: usable_Some)
  from Cons.prems call have "now - ts c < of_int ttl" by simp
  with u have "scrape_with_cache ttl now page c = (Inr items, c)"
    by (simp add: scrape_with_cache_def)
  moreover from Cons have "gets ttl calls c = (replicate (length calls) (Inr items), c)"
    by simp
  ultimately show ?case by (simp add: call)
qed

lemma gets_unusable:
  "usable c = None \<Longrightarrow>
   \<forall>call \<in> set calls. outcome (snd call) = Inr [] \<or> isl (snd call) \<Longrightarrow>
   fst (gets ttl calls c) = map (\<lambda>call. outcome (snd call)) calls \<and>
   fetch_calls (snd (gets ttl calls c)) = fetch_calls c + length calls \<and>
   usable (snd (gets ttl calls c)) = None"
proof (induction calls arbitrary: c)
  case Nil
  then show ?case by simp
next
  case (Cons call calls)
  obtain now page where call: "call = (now, page)" by (cases call)
  obtain r c' where s: "scrape_with_cache ttl now page c = (r, c')"
    by (cases "scrape_with_cache ttl now page c")
  from Cons.prems(2) call have p: "outcome page = Inr [] \<or> isl page" by simp
  from s Cons.prems(1) p
  have r: "r = outcome page" and f: "fetch_calls c' = fetch_calls c + 1" and u: "usable c' = None"
    by (cases page; auto simp: scrape_with_cache_def refresh_def outcome_def usable_def Let_def
        split: option.splits)+
  from Cons.prems(2) have "\<forall>call \<in> set calls. outcome (snd call) = Inr [] \<or> isl (snd call)"
    by simp
  from Cons.IH [OF u this]
  have ih: "fst (gets ttl calls c') = map (\<lambda>call. outcome (snd call)) calls"
    "fetch_calls (snd (gets ttl calls c')) = fetch_calls c' + length calls"
    "usable (snd (gets ttl calls c')) = None" by simp_all
  obtain rs c'' where g: "gets ttl calls c' = (rs, c'')" by (cases "gets ttl calls c'")
  with ih s r f show ?case by (simp add: call)
qed

lemma parse_synthese_Nil: "parse_synthese [] = []"
  by (simp add: parse_synthese_def)

lemma example_signals_nonempty: "example_signals \<noteq> []"
  by (simp add: example_signals_def)

text \<open>
  C6 (amended). After a successful fetch and extraction that gave at least one signal,
  every call within the time to live of that fetch returns the cached signals and fetches
  nothing: from the initial cache the number of fetches stays at 1.
\<close>

theorem cache_fresh_no_fetch:
  fixes calls :: "(rat \<times> ('e + anchor list)) list"
  shows "parse_synthese soup \<noteq> [] \<and> (\<forall>call \<in> set calls. fst call - t0 < of_int ttl) \<longrightarrow>
     snd (refresh t0 (Inr soup :: 'e + anchor list) c) =
       c\<lparr>data := Some (parse_synthese soup), ts := t0, fetch_calls := fetch_calls c + 1\<rparr> \<and>
     gets ttl calls (snd (refresh t0 (Inr soup :: 'e + anchor list) c)) =
       (replicate (length calls) (Inr (parse_synthese soup)),
        snd (refresh t0 (Inr soup :: 'e + anchor list) c)) \<and>
     gets ttl ((t0, Inr soup) # calls) initial_cache =
       (replicate (Suc (length calls)) (Inr (parse_synthese soup)),
        \<lparr>ts = t0, data = Some (parse_synthese soup), fetch_calls = 1\<rparr>)"
proof (intro impI)
  assume a: "parse_synthese soup \<noteq> [] \<and> (\<forall>call \<in> set calls. fst call - t0 < of_int ttl)"
  let ?page = "Inr soup :: 'e + anchor list"
  define items where "items = parse_synthese soup"
  have fresh: "gets ttl calls c1 = (replicate (length calls) (Inr items), c1)"
    if "data c1 = Some items" "ts c1 = t0" for c1 :: cache
    using that a by (intro gets_fresh) (simp_all add: items_def)
  have s: "snd (refresh t0 ?page c) =
      c\<lparr>data := Some items, ts := t0, fetch_calls := fetch_calls c + 1\<rparr>"
    by (simp add: refresh_success items_def)
  have first: "scrape_with_cache ttl t0 ?page initial_cache =
      (Inr items, \<lparr>ts = t0, data = Some items, fetch_calls = 1\<rparr>)"
    by (simp add: scrape_with_cache_def usable_def initial_cache_def refresh_success items_def)
  have "gets ttl ((t0, ?page) # calls) initial_cache =
       (replicate (Suc (length calls)) (Inr items),
        \<lparr>ts = t0, data = Some items, fetch_calls = 1\<rparr>)"
    using fresh [of "\<lparr>ts = t0, data = Some items, fetch_calls = 1\<rparr>"] first by simp
  moreover have "gets ttl calls (snd (refresh t0 ?page c)) =
       (replicate (length calls) (Inr items), snd (refresh t0 ?page c))"
    by (rule fresh) (simp_all add: s)
  ultimately show "snd (refresh t0 ?page c) =
       c\<lparr>data := Some (parse_synthese soup), ts := t0, fetch_calls := fetch_calls c + 1\<rparr> \<and>
     gets ttl calls (snd (refresh t0 ?page c)) =
       (replicate (length calls) (Inr (parse_synthese soup)), snd (refresh t0 ?page c)) \<and>
     gets ttl ((t0, Inr soup) # calls) initial_cache =
       (replicate (Suc (length calls)) (Inr (parse_synthese soup)),
        \<lparr>ts = t0, data = Some (parse_synthese soup), fetch_calls = 1\<rparr>)"
    using s by (simp add: items_def)
qed

theorem cache_fresh_no_fetch_witness:
  "parse_synthese example_soup = example_signals \<and> example_signals \<noteq> [] \<and>
   (1100 :: rat) - 1000 < of_int 300 \<and> (1299 :: rat) - 1000 < of_int 300 \<and>
   gets 300 [(1000, Inr example_soup), (1100, Inr []), (1299, Inl ''timeout'')] initial_cache =
     ([Inr example_signals, Inr example_signals, Inr example_signals],
      \<lparr>ts = 1000, data = Some example_signals, fetch_calls = 1\<rparr>)"
proof -
  have "\<forall>call \<in> set [(1100 :: rat, Inr [] :: string + anchor list), (1299, Inl ''timeout'')].
      fst call - 1000 < of_int 300"
    by simp
  with cache_fresh_no_fetch [of example_soup
      "[(1100, Inr []), (1299, Inl ''timeout'')]" 1000 300 initial_cache]
  show ?thesis
    by (simp add: example_parse example_signals_nonempty)
qed

text \<open>
  The claim as stated fails: a successful fetch of a page without signals caches the
  empty list, and the next call, one second later, fetches again.
\<close>

theorem cache_empty_refetch:
  "parse_synthese [] = [] \<and> (1001 :: rat) - 1000 < of_int 300 \<and>
   gets 300 [(1000, Inr [] :: string + anchor list), (1001, Inr [])] initial_cache =
     ([Inr [], Inr []], \<lparr>ts = 1001, data = Some [], fetch_calls = 2\<rparr>)"
  by (simp add: parse_synthese_Nil scrape_with_cache_def usable_def initial_cache_def
      refresh_success)

text \<open>
  C7 (amended). When the fetch fails, the call returns the cached signals if the cache
  holds a non-empty list, however old it is; with nothing or the empty list in the cache
  the failure goes to the caller. After a first call that fetched at least one signal, a
  second call whose fetch fails returns the signals of the first, at any time. As long as
  no fetch has succeeded, every call passes its failure on.
\<close>

theorem cache_degradation:
  fixes e :: 'e and fails :: "(rat \<times> 'e) list"
  shows "(data c = Some items \<and> items \<noteq> [] \<longrightarrow>
      fst (scrape_with_cache ttl now (Inl e) c) = Inr items) \<and>
   (data c = None \<or> data c = Some [] \<longrightarrow>
      fst (scrape_with_cache ttl now (Inl e) c) = Inl e) \<and>
   (parse_synthese soup \<noteq> [] \<longrightarrow>
      fst (gets ttl [(t0, Inr soup), (t1, Inl e)] initial_cache) =
        [Inr (parse_synthese soup), Inr (parse_synthese soup)]) \<and>
   fst (gets ttl (map (\<lambda>(now, e). (now, Inl e)) fails) initial_cache) =
     map (\<lambda>(now, e). Inl e) fails"
proof (intro conjI impI)
  assume "data c = Some items \<and> items \<noteq> []"
  then have "usable c = Some items"
    "usable (c\<lparr>fetch_calls := fetch_calls c + 1\<rparr>) = Some items"
    by (simp_all add: usable_def)
  then show "fst (scrape_with_cache ttl now (Inl e) c) = Inr items"
    by (simp add: scrape_with_cache_def refresh_def Let_def)
next
  assume "data c = None \<or> data c = Some []"
  then have "usable c = None" "usable (c\<lparr>fetch_calls := fetch_calls c + 1\<rparr>) = None"
    by (auto simp: usable_def)
  then show "fst (scrape_with_cache ttl now (Inl e) c) = Inl e"
    by (simp add: scrape_with_cache_def refresh_def Let_def)
next
  assume "parse_synthese soup \<noteq> []"
  then show "fst (gets ttl [(t0, Inr soup), (t1, Inl e)] initial_cache) =
        [Inr (parse_synthese soup), Inr (parse_synthese soup)]"
    by (simp add: scrape_with_cache_def usable_def initial_cache_def refresh_def Let_def)
next
  let ?calls = "map (\<lambda>(now, e). (now, Inl e :: 'e + anchor list)) fails"
  have "usable initial_cache = None" by (simp add: usable_def initial_cache_def)
  moreover have "\<forall>call \<in> set ?calls. outcome (snd call) = Inr [] \<or> isl (snd call)"
    by auto
  ultimately have "fst (gets ttl ?calls initial_cache) = map (\<lambda>call. outcome (snd call)) ?calls"
    using gets_unusable by blast
  also have "\<dots> = map (\<lambda>(now, e). Inl e) fails"
    by (auto simp: outcome_def)
  finally show "fst (gets ttl ?calls initial_cache) = map (\<lambda>(now, e). Inl e) fails" .
qed

theorem cache_degradation_witness:
  "data \<lparr>ts = 1000, data = Some example_signals, fetch_calls = 1\<rparr> = Some example_signals \<and>
   example_signals \<noteq> [] \<and> \<not> (5000 :: rat) - 1000 < of_int 300 \<and>
   fst (scrape_with_cache 300 5000 (Inl ''timeout'')
         \<lparr>ts = 1000, data = Some example_signals, fetch_calls = 1\<rparr>) = Inr example_signals \<and>
   data initial_cache = None \<and>
   fst (scrape_with_cache 300 5000 (Inl ''timeout'') initial_cache) = Inl ''timeout'' \<and>
   parse_synthese example_soup \<noteq> [] \<and>
   fst (gets 300 [(1000, Inr example_soup), (5000, Inl ''timeout'')] initial_cache) =
     [Inr example_signals, Inr example_signals]"
proof -
  have d: "data initial_cache = None" by (simp add: initial_cache_def)
  have n: "parse_synthese example_soup \<noteq> []"
    by (simp add: example_parse example_signals_nonempty)
  show ?thesis
    using cache_degradation [of "\<lparr>ts = 1000, data = Some example_signals, fetch_calls = 1\<rparr>"
        example_signals 300 5000 "''timeout''" example_soup 1000 5000 "[]"]
      cache_degradation [of initial_cache "[]" 300 5000 "''timeout''" example_soup 1000 5000 "[]"]
      d n
    by (simp add: example_parse example_signals_nonempty)
qed

text \<open>
  The claim as stated fails: the first call fetches a page without signals, the second
  call, after the time to live, fails to fetch and raises instead of returning the data of
  the first call.
\<close>

theorem cache_empty_propagates:
  "gets 300 [(1000, Inr []), (5000, Inl ''timeout'')] initial_cache =
     ([Inr [], Inl ''timeout''], \<lparr>ts = 1000, data = Some [], fetch_calls = 2\<rparr>)"
  by (simp add: parse_synthese_Nil scrape_with_cache_def usable_def initial_cache_def
      refresh_def Let_def)

text \<open>
  C9. A successful fetch that gives no signal leaves the empty list in the cache, and the
  cache then counts as empty: every later call fetches, whatever its time, as long as the
  fetches fail or give no signal, and a failing fetch raises.
\<close>

theorem cache_empty_list:
  "(parse_synthese soup = [] \<longrightarrow> data (snd (refresh t0 (Inr soup) c0)) = Some []) \<and>
   (data c = Some [] \<longrightarrow>
      scrape_with_cache ttl now (Inl e) c = (Inl e, c\<lparr>fetch_calls := fetch_calls c + 1\<rparr>)) \<and>
   (data c = Some [] \<and> (\<forall>call \<in> set calls. outcome (snd call) = Inr [] \<or> isl (snd call)) \<longrightarrow>
      fst (gets ttl calls c) = map (\<lambda>call. outcome (snd call)) calls \<and>
      fetch_calls (snd (gets ttl calls c)) = fetch_calls c + length calls)"
proof (intro conjI impI)
  assume "parse_synthese soup = []"
  then show "data (snd (refresh t0 (Inr soup) c0)) = Some []"
    by (simp add: refresh_success)
next
  assume "data c = Some []"
  then have "usable c = None" "usable (c\<lparr>fetch_calls := fetch_calls c + 1\<rparr>) = None"
    by (simp_all add: usable_def)
  then show "scrape_with_cache ttl now (Inl e) c = (Inl e, c\<lparr>fetch_calls := fetch_calls c + 1\<rparr>)"
    by (simp add: scrape_with_cache_def refresh_def Let_def)
next
  assume a: "data c = Some [] \<and> (\<forall>call \<in> set calls. outcome (snd call) = Inr [] \<or> isl (snd call))"
  then have "usable c = None" by (simp add: usable_def)
  from gets_unusable [OF this, of calls ttl] a
  show "fst (gets ttl calls c) = map (\<lambda>call. outcome (snd call)) calls"
    "fetch_calls (snd (gets ttl calls c)) = fetch_calls c + length calls"
    by simp_all
qed

theorem cache_empty_list_witness:
  "parse_synthese [link_nop] = [] \<and>
   data (snd (refresh 1000 (Inr [link_nop] :: string + anchor list) initial_cache)) = Some [] \<and>
   scrape_with_cache 300 1001 (Inl ''timeout'') \<lparr>ts = 1000, data = Some [], fetch_calls = 1\<rparr> =
     (Inl ''timeout'', \<lparr>ts = 1000, data = Some [], fetch_calls = 2\<rparr>) \<and>
   (1001 :: rat) - 1000 < of_int 300 \<and>
   fst (gets 300 [(1001, Inr [link_nop]), (1002, Inl ''timeout'')]
         \<lparr>ts = 1000, data = Some [], fetch_calls = 1\<rparr>) = [Inr [], Inl ''timeout''] \<and>
   fetch_calls (snd (gets 300 [(1001, Inr [link_nop]), (1002, Inl ''timeout'')]
         \<lparr>ts = 1000, data = Some [], fetch_calls = 1\<rparr>)) = 3"
proof -
  have p: "parse_synthese [link_nop] = []"
    by (simp add: extract_eval)
  have o: "outcome (Inr [link_nop] :: string + anchor list) = Inr []"
    "outcome (Inl ''timeout'' :: string + anchor list) = Inl ''timeout''"
    by (simp_all add: outcome_def p)
  show ?thesis
    using cache_empty_list [of "[link_nop]" 1000 initial_cache
        "\<lparr>ts = 1000, data = Some [], fetch_calls = 1\<rparr>" 300 1001 "''timeout''"
        "[(1001, Inr [link_nop]), (1002, Inl ''timeout'')]"]
    by (simp add: p o numeral_2_eq_2 numeral_3_eq_3 del: gets.simps)
qed

section \<open>Properties of saving\<close>





















end
